theory Spec2Isabelle
  imports Main "HOL-Library.Mapping" "HOL-Library.AList_Mapping" "HOL-Library.Sublist"
begin

section \<open>Nodes, shared pointers and the store\<close>

text \<open>
  The source holds every node behind a \<^verbatim>\<open>std::shared_ptr<const TrieNode>\<close>, and two
  versions of the trie may point at the same node. The store is therefore explicit: a
  list of nodes, the address of a node being its index. A shared pointer is an optional
  address, \<open>None\<close> being \<^verbatim>\<open>nullptr\<close>. \<^verbatim>\<open>make_shared\<close> and \<^verbatim>\<open>make_unique\<close> put a new
  node at the end of the store; nothing is ever freed in the model, which only leaves
  unreferenced nodes behind. A smart pointer keeps its node alive, so a non-null
  pointer is the address of a node of the store: the invariant \<open>heap_ok\<close> below says
  so, and under it every read \<open>h ! a\<close> of the model is a read of an allocated node.
\<close>

type_synonym addr = nat
type_synonym ptr = "addr option"

text \<open>\<^verbatim>\<open>using Children = std::unordered_map<char, SPT<const TrieNode>>\<close>\<close>

type_synonym Children = "(char, ptr) mapping"

text \<open>
  The class \<^verbatim>\<open>TrieNode\<close> and its subclass \<^verbatim>\<open>TrieValueNode<T>\<close>. The template argument
  \<open>T\<close> is part of the dynamic type of a value node and is what \<^verbatim>\<open>dynamic_cast\<close> looks
  at, so the node records it (\<open>vtype\<close>) beside the stored value (\<open>val\<close>, the
  member \<^verbatim>\<open>value\<close>: the pointer \<^verbatim>\<open>make_shared<T>\<close> returned, never null, modelled by
  the value it points to). The field \<open>isEndOfWord\<close> is a public member of the base
  class and is kept as a field.
\<close>

datatype ('t, 'a) TrieNode =
    is_TrieNode: TrieNode (isEndOfWord: bool) (children: Children)
  | is_TrieValueNode: TrieValueNode (isEndOfWord: bool) (children: Children) (vtype: 't) (val: 'a)

type_synonym ('t, 'a) heap = "('t, 'a) TrieNode list"

text \<open>
  \<^verbatim>\<open>TrieNode::copy\<close> is \<^verbatim>\<open>make_unique<TrieNode>(children)\<close>: the new node gets the
  default \<open>isEndOfWord{false}\<close>. \<^verbatim>\<open>TrieValueNode::copy\<close> is
  \<^verbatim>\<open>make_unique<TrieValueNode>(children, value)\<close>, whose constructor sets
  \<open>isEndOfWord = true\<close>. Neither reads the flag of the node that is copied.
\<close>

fun copy :: "('t, 'a) TrieNode \<Rightarrow> ('t, 'a) TrieNode" where
  "copy (TrieNode e c) = TrieNode False c"
| "copy (TrieValueNode e c t v) = TrieValueNode True c t v"

text \<open>Allocation of a node: its address is the next free index.\<close>

definition alloc :: "('t, 'a) TrieNode \<Rightarrow> ('t, 'a) heap \<Rightarrow> addr \<times> ('t, 'a) heap" where
  "alloc n h = (length h, h @ [n])"

text \<open>Assignment to the \<open>children\<close> member of a node that is being built.\<close>

fun set_children :: "Children \<Rightarrow> ('t, 'a) TrieNode \<Rightarrow> ('t, 'a) TrieNode" where
  "set_children c' (TrieNode e c) = TrieNode e c'"
| "set_children c' (TrieValueNode e c t v) = TrieValueNode e c' t v"

text \<open>The class \<^verbatim>\<open>Trie\<close>: a version handle, holding the root pointer.\<close>

datatype Trie = Trie (root: ptr)

section \<open>search\<close>

text \<open>
  The \<^verbatim>\<open>for\<close> loop of \<^verbatim>\<open>Trie::search\<close>. The result \<open>None\<close> is the early
  \<^verbatim>\<open>return nullptr\<close>; \<open>Some cur\<close> is the pointer held when the key is used up
  (it may be null when a children entry is null).
\<close>

fun descend :: "('t, 'a) heap \<Rightarrow> ptr \<Rightarrow> string \<Rightarrow> ptr option" where
  "descend h cur [] = Some cur"
| "descend h cur (k # ks) =
     (case cur of
        None \<Rightarrow> None
      | Some a \<Rightarrow>
          (case Mapping.lookup (children (h ! a)) k of
             None \<Rightarrow> None
           | Some nxt \<Rightarrow> descend h nxt ks))"

text \<open>
  The end of \<^verbatim>\<open>Trie::search\<close>: \<^verbatim>\<open>dynamic_cast<const TrieValueNode<T>*>(cur.get())\<close>,
  then the test of \<open>isEndOfWord\<close>. The cast of a null pointer, of a plain node and of a
  value node of another type is null.
\<close>

fun value_at :: "('t, 'a) heap \<Rightarrow> 't \<Rightarrow> ptr \<Rightarrow> 'a option" where
  "value_at h T None = None"
| "value_at h T (Some a) =
     (case h ! a of
        TrieNode e c \<Rightarrow> None
      | TrieValueNode e c t v \<Rightarrow> if t = T \<and> e then Some v else None)"

definition search_from :: "('t, 'a) heap \<Rightarrow> ptr \<Rightarrow> 't \<Rightarrow> string \<Rightarrow> 'a option" where
  "search_from h p T key =
     (case descend h p key of None \<Rightarrow> None | Some cur \<Rightarrow> value_at h T cur)"

definition search :: "('t, 'a) heap \<Rightarrow> Trie \<Rightarrow> 't \<Rightarrow> string \<Rightarrow> 'a option" where
  "search h tr T key = search_from h (root tr) T key"

section \<open>insert\<close>

text \<open>
  The recursive lambda \<open>dfs\<close> of \<^verbatim>\<open>Trie::insert\<close>, on the rest of the key instead of
  the index. It returns the new node's pointer and the store after the allocations.
\<close>

fun insert_dfs ::
  "string \<Rightarrow> 't \<Rightarrow> 'a \<Rightarrow> ptr \<Rightarrow> ('t, 'a) heap \<Rightarrow> ptr \<times> ('t, 'a) heap" where
  "insert_dfs [] T x cur h =
     (case cur of
        Some a \<Rightarrow>
          (let (r, h1) = alloc (TrieValueNode True (children (h ! a)) T x) h
           in (Some r, h1))
      | None \<Rightarrow>
          (let (r, h1) = alloc (TrieValueNode True Mapping.empty T x) h
           in (Some r, h1)))"
| "insert_dfs (k # ks) T x cur h =
     (let t = cur;
          cur' = (case cur of
                    None \<Rightarrow> None
                  | Some a \<Rightarrow>
                      (case Mapping.lookup (children (h ! a)) k of
                         None \<Rightarrow> None
                       | Some c \<Rightarrow> c));
          (next, h1) = insert_dfs ks T x cur' h;
          (ret, h2) = (case t of
                         Some a \<Rightarrow> alloc (copy (h1 ! a)) h1
                       | None \<Rightarrow> alloc (TrieNode False Mapping.empty) h1);
          h3 = h2[ret := set_children (Mapping.update k next (children (h2 ! ret))) (h2 ! ret)]
      in (Some ret, h3))"

text \<open>
  \<^verbatim>\<open>Trie::insert\<close> (the name \<open>insert\<close> belongs to sets in HOL). The version
  \<open>tr\<close> is \<^verbatim>\<open>*this\<close>; the result is the new version and the store.
\<close>

definition Trie_insert ::
  "('t, 'a) heap \<Rightarrow> Trie \<Rightarrow> string \<Rightarrow> 't \<Rightarrow> 'a \<Rightarrow> Trie \<times> ('t, 'a) heap" where
  "Trie_insert h tr key T x =
     (let (newRoot, h') = insert_dfs key T x (root tr) h in (Trie newRoot, h'))"

section \<open>remove\<close>

text \<open>
  A node is dead when it has no children and is not the end of a key: the test
  \<^verbatim>\<open>children.empty() && !isEndOfWord\<close> of \<^verbatim>\<open>Trie::remove\<close>.
\<close>

definition dead :: "('t, 'a) TrieNode \<Rightarrow> bool" where
  "dead n \<longleftrightarrow> Mapping.is_empty (children n) \<and> \<not> isEndOfWord n"

text \<open>
  The recursive lambda \<open>dfs\<close> of \<^verbatim>\<open>Trie::remove\<close>. It dereferences \<open>cur\<close> without a
  test, at \<^verbatim>\<open>cur->children\<close> when the key is used up and at \<^verbatim>\<open>cur->copy()\<close> otherwise:
  on a null pointer the behaviour of the source is undefined, which is the result
  \<open>None\<close> here. The inner option of a result \<open>Some (p, h')\<close> is the pointer returned.
\<close>

fun remove_dfs :: "string \<Rightarrow> ptr \<Rightarrow> ('t, 'a) heap \<Rightarrow> (ptr \<times> ('t, 'a) heap) option" where
  "remove_dfs [] cur h =
     (case cur of
        None \<Rightarrow> None
      | Some a \<Rightarrow>
          (let (r, h1) = alloc (TrieNode False (children (h ! a))) h
           in Some (Some r, h1)))"
| "remove_dfs (k # ks) cur h =
     (case cur of
        None \<Rightarrow> None
      | Some a \<Rightarrow>
          (let (ret, h1) = alloc (copy (h ! a)) h
           in (case Mapping.lookup (children (h1 ! a)) k of
                 None \<Rightarrow> Some (None, h1)
               | Some cur' \<Rightarrow>
                   (case remove_dfs ks cur' h1 of
                      None \<Rightarrow> None
                    | Some (next, h2) \<Rightarrow>
                        (case next of
                           None \<Rightarrow> Some (None, h2)
                         | Some n \<Rightarrow>
                             if dead (h2 ! n)
                             then Some (Some ret,
                                    h2[ret := set_children
                                        (Mapping.delete k (children (h2 ! ret))) (h2 ! ret)])
                             else Some (Some ret,
                                    h2[ret := set_children
                                        (Mapping.update k next (children (h2 ! ret))) (h2 ! ret)]))))))"

text \<open>
  \<^verbatim>\<open>Trie::remove\<close>. The first test is \<^verbatim>\<open>this->root == nullptr\<close>; after the descent,
  a dead new root gives the empty version, a null result of \<open>dfs\<close> gives the version
  with the root of \<^verbatim>\<open>*this\<close>, and any other result becomes the new root.
\<close>

definition Trie_remove ::
  "('t, 'a) heap \<Rightarrow> Trie \<Rightarrow> string \<Rightarrow> (Trie \<times> ('t, 'a) heap) option" where
  "Trie_remove h tr key =
     (if root tr = None then Some (Trie None, h)
      else
        (case remove_dfs key (root tr) h of
           None \<Rightarrow> None
         | Some (ret, h') \<Rightarrow>
             (case ret of
                Some r \<Rightarrow> if dead (h' ! r) then Some (Trie None, h') else Some (Trie ret, h')
              | None \<Rightarrow> Some (Trie (root tr), h'))))"

section \<open>The driver and sequences of operations\<close>

text \<open>
  A history of a trie is a list of calls of \<^verbatim>\<open>insert\<close> and \<^verbatim>\<open>remove\<close>, each applied
  to the version the previous call returned, starting from \<^verbatim>\<open>Trie()\<close>, whose root is
  null. A run is \<open>None\<close> when a call of \<^verbatim>\<open>remove\<close> dereferences a null pointer.
\<close>

datatype ('t, 'a) operation = Insert string 't 'a | Remove string

fun apply_op ::
  "('t, 'a) operation \<Rightarrow> Trie \<times> ('t, 'a) heap \<Rightarrow> (Trie \<times> ('t, 'a) heap) option" where
  "apply_op (Insert key T x) (tr, h) = Some (Trie_insert h tr key T x)"
| "apply_op (Remove key) (tr, h) = Trie_remove h tr key"

fun run ::
  "('t, 'a) operation list \<Rightarrow> Trie \<times> ('t, 'a) heap \<Rightarrow> (Trie \<times> ('t, 'a) heap) option" where
  "run [] s = Some s"
| "run (c # cs) s = (case apply_op c s of None \<Rightarrow> None | Some s' \<Rightarrow> run cs s')"

definition emptyVersion :: "Trie \<times> ('t, 'a) heap" where
  "emptyVersion = (Trie None, [])"

text \<open>
  The template arguments and the values of \<^verbatim>\<open>main\<close>. The literal \<^verbatim>\<open>0.888\<close> is kept as
  its digits and the number of decimals; nothing computes with it.
\<close>

datatype cpp_type = T_int | T_string | T_double

datatype cpp_value = V_int int | V_string string | V_double int nat

text \<open>The calls of \<^verbatim>\<open>main\<close>, in order (the searches between them do not change the trie).\<close>

definition main_ops :: "(cpp_type, cpp_value) operation list" where
  "main_ops =
     [Insert ''abc'' T_int (V_int 123),
      Insert ''ab'' T_int (V_int 12),
      Insert ''abcedfg'' T_int (V_int 888),
      Insert ''ijk'' T_string (V_string ''xyz''),
      Insert ''xyz'' T_double (V_double 888 3),
      Remove ''ijk'',
      Remove ''ijkf'',
      Remove ''ab'',
      Insert '''' T_string (V_string ''naughty'')]"

text \<open>Three small versions used as concrete inputs below.\<close>

definition v_abc :: "Trie \<times> (cpp_type, cpp_value) heap" where
  "v_abc = Trie_insert [] (Trie None) ''abc'' T_int (V_int 123)"

definition v_ab_abc :: "Trie \<times> (cpp_type, cpp_value) heap" where
  "v_ab_abc = Trie_insert (snd v_abc) (fst v_abc) ''ab'' T_int (V_int 12)"

definition v_abc_ijk :: "Trie \<times> (cpp_type, cpp_value) heap" where
  "v_abc_ijk = Trie_insert (snd v_abc) (fst v_abc) ''ijk'' T_string (V_string ''xyz'')"

section \<open>The class invariant of nodes and the invariant of the store\<close>

text \<open>
  The constructors fix the flag: a plain node is built with \<open>isEndOfWord = false\<close>, a
  value node with \<open>isEndOfWord = true\<close>, and no code assigns the flag afterwards.
\<close>

definition flag_ok :: "('t, 'a) TrieNode \<Rightarrow> bool" where
  "flag_ok n = (case n of TrieNode e c \<Rightarrow> \<not> e | TrieValueNode e c t v \<Rightarrow> e)"

text \<open>
  A pointer into a store of \<open>n\<close> nodes: \<open>ptr_ok\<close> allows null, \<open>child_ok\<close> does not.
  A shared pointer never dangles, so an address is below the size of the store.
\<close>

definition child_ok :: "nat \<Rightarrow> ptr \<Rightarrow> bool" where
  "child_ok n p = (case p of None \<Rightarrow> False | Some a \<Rightarrow> a < n)"

definition ptr_ok :: "nat \<Rightarrow> ptr \<Rightarrow> bool" where
  "ptr_ok n p = (case p of None \<Rightarrow> True | Some a \<Rightarrow> a < n)"

text \<open>
  A node is well formed in a store of \<open>n\<close> nodes when its flag is the one of its class
  and every entry of its children mapping is a non-null pointer into the store.
\<close>

definition node_ok :: "nat \<Rightarrow> ('t, 'a) TrieNode \<Rightarrow> bool" where
  "node_ok n nd \<longleftrightarrow>
     flag_ok nd \<and>
     (\<forall>k \<in> Mapping.keys (children nd).
        case Mapping.lookup (children nd) k of None \<Rightarrow> False | Some p \<Rightarrow> child_ok n p)"

definition heap_ok :: "('t, 'a) heap \<Rightarrow> bool" where
  "heap_ok h \<longleftrightarrow> list_all (node_ok (length h)) h"

text \<open>
  A version of the trie: a handle whose root is null or points into a well-formed
  store. Every version built from the empty one by \<^verbatim>\<open>insert\<close> and \<^verbatim>\<open>remove\<close> is of
  this kind (\<open>run_version_ok\<close> below).
\<close>

definition version_ok :: "('t, 'a) heap \<Rightarrow> Trie \<Rightarrow> bool" where
  "version_ok h tr \<longleftrightarrow> heap_ok h \<and> ptr_ok (length h) (root tr)"

text \<open>
  No node reached from \<open>p\<close> along a path of edges is dead; no path from \<open>p\<close> is longer
  than \<open>n\<close> (the trie below \<open>p\<close> is finite in depth).
\<close>

definition no_dead :: "('t, 'a) heap \<Rightarrow> ptr \<Rightarrow> bool" where
  "no_dead h p \<longleftrightarrow> (\<forall>path a. descend h p path = Some (Some a) \<longrightarrow> \<not> dead (h ! a))"

definition depth_le :: "('t, 'a) heap \<Rightarrow> ptr \<Rightarrow> nat \<Rightarrow> bool" where
  "depth_le h p n \<longleftrightarrow> (\<forall>path. n < length path \<longrightarrow> descend h p path = None)"

definition trie_inv :: "('t, 'a) heap \<Rightarrow> Trie \<Rightarrow> bool" where
  "trie_inv h tr \<longleftrightarrow> version_ok h tr \<and> no_dead h (root tr) \<and> (\<exists>n. depth_le h (root tr) n)"

section \<open>Auxiliary notions of the proofs\<close>

text \<open>What \<^verbatim>\<open>dynamic_cast\<close> and the flag test of \<^verbatim>\<open>search\<close> give on a node.\<close>

definition node_value :: "'t \<Rightarrow> ('t, 'a) TrieNode \<Rightarrow> 'a option" where
  "node_value T n =
     (case n of TrieNode e c \<Rightarrow> None
      | TrieValueNode e c t v \<Rightarrow> if t = T \<and> e then Some v else None)"

text \<open>
  The pointer \<open>dfs\<close> of \<^verbatim>\<open>insert\<close> goes on with below \<open>cur\<close>, and the node it starts
  the new node from (the copy of \<open>t\<close>, or a fresh plain node).
\<close>

definition child :: "('t, 'a) heap \<Rightarrow> ptr \<Rightarrow> char \<Rightarrow> ptr" where
  "child h cur k =
     (case cur of None \<Rightarrow> None
      | Some a \<Rightarrow> (case Mapping.lookup (children (h ! a)) k of None \<Rightarrow> None | Some c \<Rightarrow> c))"

definition base_node :: "('t, 'a) heap \<Rightarrow> ptr \<Rightarrow> ('t, 'a) TrieNode" where
  "base_node h t = (case t of Some a \<Rightarrow> copy (h ! a) | None \<Rightarrow> TrieNode False Mapping.empty)"

text \<open>
  A set of addresses is closed in a store when the children of its nodes are non-null and
  again in the set. Two stores that agree on a closed set give the same walks from it.
\<close>

definition closed_in :: "addr set \<Rightarrow> ('t, 'a) heap \<Rightarrow> bool" where
  "closed_in S h \<longleftrightarrow>
     (\<forall>a\<in>S. \<forall>k p. Mapping.lookup (children (h ! a)) k = Some p \<longrightarrow> (\<exists>b\<in>S. p = Some b))"

definition ptr_in :: "addr set \<Rightarrow> ptr \<Rightarrow> bool" where
  "ptr_in S p = (case p of None \<Rightarrow> True | Some a \<Rightarrow> a \<in> S)"

text \<open>
  During \<^verbatim>\<open>remove\<close> the store holds, above the \<open>n\<close> nodes it had at the call, clones
  that nothing points to yet. \<open>low_ok\<close> is the invariant of the first \<open>n\<close> nodes;
  \<open>new_ok\<close> says that a node allocated by a call points below \<open>n\<close> or at nodes the
  call allocated, at addresses from \<open>m\<close> up to \<open>M\<close>.
\<close>

definition low_ok :: "nat \<Rightarrow> ('t, 'a) heap \<Rightarrow> bool" where
  "low_ok n h \<longleftrightarrow> (\<forall>a<n. node_ok n (h ! a))"

definition new_ok :: "nat \<Rightarrow> nat \<Rightarrow> nat \<Rightarrow> ('t, 'a) TrieNode \<Rightarrow> bool" where
  "new_ok n m M nd \<longleftrightarrow>
     flag_ok nd \<and>
     (\<forall>k p. Mapping.lookup (children nd) k = Some p \<longrightarrow>
        (\<exists>b. p = Some b \<and> (b < n \<or> m \<le> b \<and> b < M)))"

section \<open>Basic facts\<close>

lemma node_ok_lookup:
  "node_ok n nd \<Longrightarrow> Mapping.lookup (children nd) k = Some p \<Longrightarrow> \<exists>b. p = Some b \<and> b < n"
  unfolding node_ok_def child_ok_def
  by (auto simp: keys_dom_lookup split: option.splits dest!: bspec[where x=k])

lemma node_okI:
  "flag_ok nd \<Longrightarrow> (\<And>k p. Mapping.lookup (children nd) k = Some p \<Longrightarrow> \<exists>b. p = Some b \<and> b < n)
    \<Longrightarrow> node_ok n nd"
  unfolding node_ok_def child_ok_def
  by (auto simp: keys_dom_lookup split: option.splits)

lemma node_ok_mono: "node_ok n nd \<Longrightarrow> n \<le> m \<Longrightarrow> node_ok m nd"
  by (rule node_okI) (auto simp: node_ok_def dest!: node_ok_lookup[rotated])

lemma heap_ok_nth: "heap_ok h \<Longrightarrow> a < length h \<Longrightarrow> node_ok (length h) (h ! a)"
  by (simp add: heap_ok_def list_all_length)

lemma heap_ok_append:
  "heap_ok h \<Longrightarrow> list_all (node_ok (length h + length zs)) zs \<Longrightarrow> heap_ok (h @ zs)"
  by (auto simp: heap_ok_def list_all_iff intro: node_ok_mono)

lemma heap_ok_snoc:
  "heap_ok h \<Longrightarrow> node_ok (Suc (length h)) nd \<Longrightarrow> heap_ok (h @ [nd])"
  by (rule heap_ok_append) simp_all

lemma children_copy [simp]: "children (copy n) = children n"
  by (cases n) simp_all

lemma children_set_children [simp]: "children (set_children c n) = c"
  by (cases n) simp_all

lemma flag_ok_copy [simp]: "flag_ok (copy n)"
  by (cases n) (simp_all add: flag_ok_def)

lemma flag_ok_set_children [simp]: "flag_ok (set_children c n) = flag_ok n"
  by (cases n) (simp_all add: flag_ok_def)

lemma isEndOfWord_set_children [simp]: "isEndOfWord (set_children c n) = isEndOfWord n"
  by (cases n) simp_all

section \<open>Walks and searches in a store\<close>

lemma descend_None [simp]: "descend h None ks = (if ks = [] then Some None else None)"
  by (cases ks) simp_all

lemma search_from_None [simp]: "search_from h None T ks = None"
  by (simp add: search_from_def)

lemma search_from_Nil [simp]: "search_from h p T [] = value_at h T p"
  by (simp add: search_from_def)

lemma search_from_Cons:
  "search_from h (Some a) T (k # ks) =
     (case Mapping.lookup (children (h ! a)) k of None \<Rightarrow> None | Some c \<Rightarrow> search_from h c T ks)"
  by (simp add: search_from_def split: option.splits)

text \<open>
  A walk from a pointer of a well-formed store stays in that store: nodes allocated
  later change neither the walk nor the value found at its end.
\<close>

lemma descend_append:
  "heap_ok h \<Longrightarrow> ptr_ok (length h) p \<Longrightarrow> descend (h @ zs) p ks = descend h p ks"
proof (induction ks arbitrary: p)
  case Nil
  then show ?case by simp
next
  case (Cons k ks)
  show ?case
  proof (cases p)
    case None
    then show ?thesis by simp
  next
    case (Some a)
    with Cons.prems have a: "a < length h" by (simp add: ptr_ok_def)
    show ?thesis
    proof (cases "Mapping.lookup (children (h ! a)) k")
      case None
      with Some a show ?thesis by (simp add: nth_append)
    next
      case (Some c)
      from node_ok_lookup[OF heap_ok_nth[OF Cons.prems(1) a] Some]
      have "ptr_ok (length h) c" by (auto simp: ptr_ok_def)
      from Cons.IH[OF Cons.prems(1) this] Some \<open>p = Some a\<close> a
      show ?thesis by (simp add: nth_append)
    qed
  qed
qed

lemma descend_ptr_ok:
  "heap_ok h \<Longrightarrow> ptr_ok (length h) p \<Longrightarrow> descend h p ks = Some q \<Longrightarrow> ptr_ok (length h) q"
proof (induction ks arbitrary: p)
  case Nil
  then show ?case by simp
next
  case (Cons k ks)
  then obtain a where p: "p = Some a" and a: "a < length h"
    by (cases p) (auto simp: ptr_ok_def)
  from Cons.prems(3) p obtain c where c: "Mapping.lookup (children (h ! a)) k = Some c"
    and d: "descend h c ks = Some q"
    by (auto split: option.splits)
  from node_ok_lookup[OF heap_ok_nth[OF Cons.prems(1) a] c]
  have "ptr_ok (length h) c" by (auto simp: ptr_ok_def)
  from Cons.IH[OF Cons.prems(1) this d] show ?case .
qed

lemma value_at_append:
  "ptr_ok (length h) p \<Longrightarrow> value_at (h @ zs) T p = value_at h T p"
  by (cases p) (simp_all add: ptr_ok_def nth_append)

lemma search_from_append:
  "heap_ok h \<Longrightarrow> ptr_ok (length h) p \<Longrightarrow> search_from (h @ zs) p T ks = search_from h p T ks"
  by (auto simp: search_from_def descend_append value_at_append dest: descend_ptr_ok
      split: option.splits)

section \<open>The descent of insert\<close>

lemma value_at_Some: "value_at h T (Some a) = node_value T (h ! a)"
  by (simp add: node_value_def)

lemma node_value_set_children [simp]: "node_value T (set_children c n) = node_value T n"
  by (cases n) (simp_all add: node_value_def)

lemma node_value_copy: "flag_ok n \<Longrightarrow> node_value T (copy n) = node_value T n"
  by (cases n) (simp_all add: node_value_def flag_ok_def)

text \<open>The two equations of \<open>insert_dfs\<close>, with the allocation carried out.\<close>

lemma insert_dfs_Nil:
  "insert_dfs [] T x cur h =
     (Some (length h),
      h @ [TrieValueNode True (case cur of Some a \<Rightarrow> children (h ! a) | None \<Rightarrow> Mapping.empty) T x])"
  by (simp add: alloc_def split: option.splits)

lemma insert_dfs_Cons:
  "insert_dfs ks T x (child h cur k) h = (next, h1) \<Longrightarrow>
   insert_dfs (k # ks) T x cur h =
     (Some (length h1),
      h1 @ [set_children (Mapping.update k next (children (base_node h1 cur))) (base_node h1 cur)])"
  by (simp add: alloc_def child_def base_node_def Let_def split: option.splits)

lemma child_ptr_ok: "heap_ok h \<Longrightarrow> ptr_ok (length h) cur \<Longrightarrow> ptr_ok (length h) (child h cur k)"
  by (auto simp: child_def ptr_ok_def split: option.splits dest!: heap_ok_nth dest: node_ok_lookup)

lemma search_from_child:
  "search_from h cur T (k # ps) = search_from h (child h cur k) T ps"
  by (cases cur) (simp_all add: search_from_Cons child_def split: option.splits)

lemma descend_child:
  "descend h cur (k # ps) \<noteq> None \<Longrightarrow> descend h cur (k # ps) = descend h (child h cur k) ps"
  by (cases cur) (simp_all add: child_def split: option.splits)

lemma search_from_last:
  "search_from (h @ [nd]) (Some (length h)) T ps =
     (case ps of [] \<Rightarrow> node_value T nd
      | k # ks \<Rightarrow> (case Mapping.lookup (children nd) k of None \<Rightarrow> None
                   | Some c \<Rightarrow> search_from (h @ [nd]) c T ks))"
  by (cases ps) (simp_all add: search_from_Cons value_at_Some del: value_at.simps)

lemma base_node_ok:
  "heap_ok h \<Longrightarrow> ptr_ok (length h) cur \<Longrightarrow> node_ok (length h) (base_node h cur)"
proof (cases cur)
  case None
  then show ?thesis by (simp add: base_node_def node_ok_def flag_ok_def)
next
  case (Some a)
  assume "heap_ok h" "ptr_ok (length h) cur"
  with Some have "node_ok (length h) (h ! a)" by (simp add: ptr_ok_def heap_ok_nth)
  with Some show ?thesis by (simp add: base_node_def node_ok_def)
qed

lemma node_ok_update:
  "node_ok n nd \<Longrightarrow> a < n \<Longrightarrow> node_ok n (set_children (Mapping.update k (Some a) (children nd)) nd)"
  by (rule node_okI) (auto simp: node_ok_def lookup_update' split: if_splits dest: node_ok_lookup[rotated])

lemma node_ok_delete:
  "node_ok n nd \<Longrightarrow> node_ok n (set_children (Mapping.delete k (children nd)) nd)"
proof (rule node_okI)
  fix k' p assume nd: "node_ok n nd"
    and "Mapping.lookup (children (set_children (Mapping.delete k (children nd)) nd)) k' = Some p"
  then have "Mapping.lookup (children nd) k' = Some p"
    by (cases "k = k'") simp_all
  with nd show "\<exists>b. p = Some b \<and> b < n" by (rule node_ok_lookup)
qed (simp add: node_ok_def)

lemma search_from_base:
  assumes "heap_ok h" "ptr_ok (length h) cur"
  shows "node_value T (base_node h cur) = search_from h cur T []"
proof (cases cur)
  case None
  then show ?thesis by (simp add: base_node_def node_value_def)
next
  case (Some a)
  with assms have "flag_ok (h ! a)" by (auto simp: ptr_ok_def node_ok_def dest!: heap_ok_nth)
  with Some show ?thesis
    by (simp add: base_node_def node_value_copy value_at_Some del: value_at.simps)
qed

lemma lookup_base:
  "Mapping.lookup (children (base_node h cur)) k = Some c \<Longrightarrow>
     search_from h cur T (k # ps) = search_from h c T ps"
  by (cases cur) (simp_all add: base_node_def search_from_Cons)

lemma lookup_base_None:
  "Mapping.lookup (children (base_node h cur)) k = None \<Longrightarrow> search_from h cur T (k # ps) = None"
  by (cases cur) (simp_all add: base_node_def search_from_Cons)

text \<open>
  What \<open>dfs\<close> of \<^verbatim>\<open>insert\<close> returns: a non-null pointer into a store that extends the
  old one and is well formed, from which the key searched with the type inserted gives
  the value, with another type nothing, and every other key what it gave from \<open>cur\<close>
  in the old store.
\<close>

lemma insert_dfs_spec:
  assumes "heap_ok h" "ptr_ok (length h) cur"
  shows "\<exists>zs a. insert_dfs ks T x cur h = (Some a, h @ zs) \<and> a < length (h @ zs) \<and>
           heap_ok (h @ zs) \<and>
           (\<forall>T' p. search_from (h @ zs) (Some a) T' p =
                     (if p = ks then (if T' = T then Some x else None)
                      else search_from h cur T' p))"
  using assms
proof (induction ks arbitrary: cur)
  case Nil
  let ?c = "case cur of Some a \<Rightarrow> children (h ! a) | None \<Rightarrow> Mapping.empty"
  let ?nd = "TrieValueNode True ?c T x :: ('a, 'b) TrieNode"
  have c: "?c = children (base_node h cur)"
    by (cases cur) (simp_all add: base_node_def)
  have ok: "node_ok (Suc (length h)) ?nd"
    using node_ok_mono[OF base_node_ok[OF Nil.prems], of "Suc (length h)"]
    by (simp add: node_ok_def flag_ok_def c)
  have hok: "heap_ok (h @ [?nd])" using Nil.prems(1) ok by (rule heap_ok_snoc)
  have "search_from (h @ [?nd]) (Some (length h)) T' p =
          (if p = [] then (if T' = T then Some x else None) else search_from h cur T' p)" for T' p
  proof (cases p)
    case Nil
    then show ?thesis using search_from_last[of h ?nd T' p] by (auto simp: node_value_def)
  next
    case (Cons k ps)
    show ?thesis
    proof (cases "Mapping.lookup (children (base_node h cur)) k")
      case None
      with Cons show ?thesis using search_from_last[of h ?nd T' p] by (simp add: c lookup_base_None)
    next
      case (Some d)
      from node_ok_lookup[OF base_node_ok[OF Nil.prems] Some]
      have "ptr_ok (length h) d" by (auto simp: ptr_ok_def)
      with Some Cons Nil.prems(1) show ?thesis using search_from_last[of h ?nd T' p]
        by (simp add: c lookup_base search_from_append)
    qed
  qed
  with hok show ?case
    by (intro exI[of _ "[?nd]"] exI[of _ "length h"]) (simp add: insert_dfs_Nil del: insert_dfs.simps)
next
  case (Cons k ks)
  from Cons.IH[OF Cons.prems(1) child_ptr_ok[OF Cons.prems], of k]
  obtain zs n where dfs: "insert_dfs ks T x (child h cur k) h = (Some n, h @ zs)"
    and n: "n < length (h @ zs)" and hok1: "heap_ok (h @ zs)"
    and s: "\<And>T' p. search_from (h @ zs) (Some n) T' p =
                     (if p = ks then (if T' = T then Some x else None)
                      else search_from h (child h cur k) T' p)"
    by blast
  let ?h1 = "h @ zs"
  let ?b = "base_node ?h1 cur"
  let ?nd = "set_children (Mapping.update k (Some n) (children ?b)) ?b"
  have cur1: "ptr_ok (length ?h1) cur" using Cons.prems(2) by (auto simp: ptr_ok_def split: option.splits)
  have b: "?b = base_node h cur"
    using Cons.prems(2) by (cases cur) (simp_all add: base_node_def ptr_ok_def nth_append)
  have bok: "node_ok (length h) (base_node h cur)" by (rule base_node_ok[OF Cons.prems])
  have ok: "node_ok (Suc (length ?h1)) ?nd"
    using node_ok_update[OF node_ok_mono[OF base_node_ok[OF hok1 cur1], of "Suc (length ?h1)"], of n k] n
    by simp
  have hok: "heap_ok (?h1 @ [?nd])" using hok1 ok by (rule heap_ok_snoc)
  have n': "ptr_ok (length ?h1) (Some n)" using n by (simp add: ptr_ok_def)
  have "search_from (?h1 @ [?nd]) (Some (length ?h1)) T' p =
          (if p = k # ks then (if T' = T then Some x else None) else search_from h cur T' p)" for T' p
  proof (cases p)
    case Nil
    then show ?thesis using search_from_last[of ?h1 ?nd T' p] search_from_base[OF Cons.prems, of T']
      by (simp add: b del: value_at.simps)
  next
    case p: (Cons k' ps)
    show ?thesis
    proof (cases "k' = k")
      case True
      have "search_from (?h1 @ [?nd]) (Some n) T' ps = search_from ?h1 (Some n) T' ps"
        by (rule search_from_append[OF hok1 n'])
      with True p show ?thesis using search_from_last[of ?h1 ?nd T' p]
        by (simp add: s search_from_child[of h cur])
    next
      case False
      show ?thesis
      proof (cases "Mapping.lookup (children (base_node h cur)) k'")
        case None
        with False p show ?thesis using search_from_last[of ?h1 ?nd T' p]
          by (simp add: b lookup_base_None)
      next
        case (Some d)
        from node_ok_lookup[OF bok Some]
        have "ptr_ok (length h) d" by (auto simp: ptr_ok_def)
        then have "search_from (h @ (zs @ [?nd])) d T' ps = search_from h d T' ps"
          by (rule search_from_append[OF Cons.prems(1)])
        with Some False p show ?thesis using search_from_last[of ?h1 ?nd T' p]
          by (simp add: b lookup_base)
      qed
    qed
  qed
  with hok show ?case
    by (intro exI[of _ "zs @ [?nd]"] exI[of _ "length ?h1"])
       (simp add: insert_dfs_Cons[OF dfs] del: insert_dfs.simps)
qed

section \<open>Two stores that agree on a closed set of addresses\<close>

lemma closed_inD:
  "closed_in S h \<Longrightarrow> a \<in> S \<Longrightarrow> Mapping.lookup (children (h ! a)) k = Some p \<Longrightarrow> ptr_in S p \<and> p \<noteq> None"
  unfolding closed_in_def ptr_in_def by fastforce

lemma descend_agree:
  assumes "closed_in S h" "\<forall>a\<in>S. h' ! a = h ! a"
  shows "ptr_in S p \<Longrightarrow> descend h' p ks = descend h p ks"
proof (induction ks arbitrary: p)
  case Nil
  then show ?case by simp
next
  case (Cons k ks)
  show ?case
  proof (cases p)
    case None
    then show ?thesis by simp
  next
    case (Some a)
    with Cons.prems have a: "a \<in> S" by (simp add: ptr_in_def)
    show ?thesis
    proof (cases "Mapping.lookup (children (h ! a)) k")
      case None
      with Some a assms(2) show ?thesis by simp
    next
      case c: (Some c)
      with assms(1) a have "ptr_in S c" by (auto dest: closed_inD)
      from Cons.IH[OF this] c Some a assms(2) show ?thesis by simp
    qed
  qed
qed

lemma descend_ptr_in:
  assumes "closed_in S h"
  shows "ptr_in S p \<Longrightarrow> descend h p ks = Some q \<Longrightarrow> ptr_in S q"
proof (induction ks arbitrary: p)
  case Nil
  then show ?case by simp
next
  case (Cons k ks)
  from Cons.prems(2) obtain a c where p: "p = Some a"
    and c: "Mapping.lookup (children (h ! a)) k = Some c" and d: "descend h c ks = Some q"
    by (cases p) (auto split: option.splits)
  from p Cons.prems(1) have "a \<in> S" by (simp add: ptr_in_def)
  with assms c have "ptr_in S c" by (auto dest: closed_inD)
  from Cons.IH[OF this d] show ?case .
qed

lemma value_at_agree:
  "\<forall>a\<in>S. h' ! a = h ! a \<Longrightarrow> ptr_in S p \<Longrightarrow> value_at h' T p = value_at h T p"
  by (cases p) (simp_all add: ptr_in_def)

lemma search_from_agree:
  assumes "closed_in S h" "\<forall>a\<in>S. h' ! a = h ! a" "ptr_in S p"
  shows "search_from h' p T ks = search_from h p T ks"
proof (cases "descend h p ks")
  case None
  with descend_agree[OF assms, of ks] show ?thesis by (simp add: search_from_def)
next
  case (Some q)
  from descend_ptr_in[OF assms(1,3) Some] have "ptr_in S q" .
  from value_at_agree[OF assms(2) this] Some descend_agree[OF assms, of ks]
  show ?thesis by (simp add: search_from_def)
qed

section \<open>The descent of remove\<close>

lemma heap_ok_low_ok: "heap_ok h \<longleftrightarrow> low_ok (length h) h"
  by (simp add: heap_ok_def low_ok_def list_all_length)

lemma low_ok_closed: "low_ok n h \<Longrightarrow> closed_in {..<n} h"
  by (auto simp: low_ok_def closed_in_def dest: node_ok_lookup)

text \<open>The equations of \<open>remove_dfs\<close>, one for each way it returns.\<close>

lemma remove_dfs_Nil:
  "remove_dfs [] (Some a) h = Some (Some (length h), h @ [TrieNode False (children (h ! a))])"
  by (simp add: alloc_def)

lemma remove_dfs_absent:
  "a < length h \<Longrightarrow> Mapping.lookup (children (h ! a)) k = None \<Longrightarrow>
     remove_dfs (k # ks) (Some a) h = Some (None, h @ [copy (h ! a)])"
  by (simp add: alloc_def nth_append)

lemma remove_dfs_rec_None:
  "a < length h \<Longrightarrow> Mapping.lookup (children (h ! a)) k = Some c \<Longrightarrow>
   remove_dfs ks c (h @ [copy (h ! a)]) = Some (None, h2) \<Longrightarrow>
     remove_dfs (k # ks) (Some a) h = Some (None, h2)"
  by (simp add: alloc_def nth_append)

lemma remove_dfs_rec_Some:
  "a < length h \<Longrightarrow> Mapping.lookup (children (h ! a)) k = Some c \<Longrightarrow>
   remove_dfs ks c (h @ [copy (h ! a)]) = Some (Some m, h @ copy (h ! a) # zs) \<Longrightarrow>
     remove_dfs (k # ks) (Some a) h =
       Some (Some (length h),
             h @ set_children
                   (if dead ((h @ copy (h ! a) # zs) ! m)
                    then Mapping.delete k (children (h ! a))
                    else Mapping.update k (Some m) (children (h ! a)))
                   (copy (h ! a)) # zs)"
  by (simp add: alloc_def nth_append)

lemma search_from_dead: "dead (h ! a) \<Longrightarrow> search_from h (Some a) T ps = None"
  by (cases ps; cases "h ! a")
     (auto simp: dead_def search_from_Cons Mapping.is_empty_def keys_dom_lookup split: option.splits)

lemma low_ok_append: "n \<le> length h \<Longrightarrow> low_ok n h \<Longrightarrow> low_ok n (h @ zs)"
  by (simp add: low_ok_def nth_append)

lemma low_ok_lookup:
  "low_ok n h \<Longrightarrow> a < n \<Longrightarrow> Mapping.lookup (children (h ! a)) k = Some p \<Longrightarrow> \<exists>b. p = Some b \<and> b < n"
  by (auto simp: low_ok_def dest: node_ok_lookup)

lemma low_descend_append:
  assumes "n \<le> length h" "low_ok n h" "ptr_in {..<n} p"
  shows "descend (h @ zs) p ks = descend h p ks"
  using assms(1) by (intro descend_agree[OF low_ok_closed[OF assms(2)] _ assms(3)]) (simp add: nth_append)

lemma low_search_append:
  assumes "n \<le> length h" "low_ok n h" "ptr_in {..<n} p"
  shows "search_from (h @ zs) p T ks = search_from h p T ks"
  using assms(1) by (intro search_from_agree[OF low_ok_closed[OF assms(2)] _ assms(3)]) (simp add: nth_append)

lemma new_ok_weaken:
  "new_ok n m M nd \<Longrightarrow> m' \<le> m \<Longrightarrow> M \<le> M' \<Longrightarrow> new_ok n m' M' nd"
  unfolding new_ok_def by (meson le_trans less_le_trans)

lemma new_ok_low:
  "low_ok n h \<Longrightarrow> a < n \<Longrightarrow> flag_ok nd \<Longrightarrow> children nd = children (h ! a) \<Longrightarrow> new_ok n m M nd"
  unfolding new_ok_def by (auto dest: low_ok_lookup)

lemma new_ok_delete:
  "new_ok n m M nd \<Longrightarrow> new_ok n m M (set_children (Mapping.delete k (children nd)) nd)"
  unfolding new_ok_def
  by (metis Mapping.lookup_delete Mapping.lookup_delete_neq option.distinct(1)
        children_set_children flag_ok_set_children)

lemma new_ok_update:
  "new_ok n m M nd \<Longrightarrow> m \<le> b \<Longrightarrow> b < M \<Longrightarrow>
     new_ok n m M (set_children (Mapping.update k (Some b) (children nd)) nd)"
  unfolding new_ok_def by (auto simp: lookup_update' split: if_splits)

lemma closed_new:
  assumes "n \<le> length h" "low_ok n h"
    and "list_all (new_ok n (Suc (length h)) (Suc (length h) + length zs)) zs"
  shows "closed_in ({..<n} \<union> {Suc (length h)..<Suc (length h) + length zs}) (h @ c0 # zs)"
  unfolding closed_in_def
proof (intro ballI allI impI)
  fix x k p
  assume x: "x \<in> {..<n} \<union> {Suc (length h)..<Suc (length h) + length zs}"
    and l: "Mapping.lookup (children ((h @ c0 # zs) ! x)) k = Some p"
  show "\<exists>b\<in>{..<n} \<union> {Suc (length h)..<Suc (length h) + length zs}. p = Some b"
  proof (cases "x < n")
    case True
    with assms(1) l have "Mapping.lookup (children (h ! x)) k = Some p" by (simp add: nth_append)
    from low_ok_lookup[OF assms(2) True this] show ?thesis by auto
  next
    case False
    with x have x': "Suc (length h) \<le> x" "x - Suc (length h) < length zs" by auto
    then have "(h @ c0 # zs) ! x = zs ! (x - Suc (length h))"
      by (simp add: nth_append nth_Cons')
    moreover from assms(3) x' have "new_ok n (Suc (length h)) (Suc (length h) + length zs) (zs ! (x - Suc (length h)))"
      by (simp add: list_all_length)
    ultimately show ?thesis using l unfolding new_ok_def by fastforce
  qed
qed

text \<open>
  What \<open>dfs\<close> of \<^verbatim>\<open>remove\<close> returns on a non-null pointer below \<open>n\<close>: it does
  return; the store is extended by nodes that point below \<open>n\<close> or at each other; the
  pointer returned is null exactly when an edge of the key is missing; and otherwise a
  search from it gives nothing for the key and, for every other key, what it gave from
  \<open>cur\<close> in the old store.
\<close>

lemma remove_dfs_spec:
  assumes "n \<le> length h" "low_ok n h" "a < n"
  shows "\<exists>res zs. remove_dfs ks (Some a) h = Some (res, h @ zs) \<and>
           list_all (new_ok n (length h) (length (h @ zs))) zs \<and>
           (case res of
              None \<Rightarrow> descend h (Some a) ks = None
            | Some r \<Rightarrow> length h \<le> r \<and> r < length (h @ zs) \<and> descend h (Some a) ks \<noteq> None \<and>
                (\<forall>T p. search_from (h @ zs) (Some r) T p =
                          (if p = ks then None else search_from h (Some a) T p)))"
  using assms
proof (induction ks arbitrary: a h)
  case Nil
  let ?nd = "TrieNode False (children (h ! a)) :: ('a, 'b) TrieNode"
  have ok: "new_ok n (length h) (Suc (length h)) ?nd"
    by (rule new_ok_low[OF Nil.prems(2,3)]) (simp_all add: flag_ok_def)
  have "search_from (h @ [?nd]) (Some (length h)) T p =
          (if p = [] then None else search_from h (Some a) T p)" for T p
  proof (cases p)
    case Nil
    then show ?thesis using search_from_last[of h ?nd T p] by (simp add: node_value_def)
  next
    case (Cons k ps)
    show ?thesis
    proof (cases "Mapping.lookup (children (h ! a)) k")
      case None
      with Cons show ?thesis using search_from_last[of h ?nd T p] by (simp add: search_from_Cons)
    next
      case (Some c)
      from low_ok_lookup[OF Nil.prems(2,3) Some] have "ptr_in {..<n} c" by (auto simp: ptr_in_def)
      from low_search_append[OF Nil.prems(1,2) this] Some Cons
      show ?thesis using search_from_last[of h ?nd T p] by (simp add: search_from_Cons)
    qed
  qed
  with ok show ?case
    by (intro exI[of _ "Some (length h)"] exI[of _ "[?nd]"]) (simp add: remove_dfs_Nil del: remove_dfs.simps)
next
  case (Cons k ks)
  let ?c0 = "copy (h ! a)"
  let ?h1 = "h @ [?c0]"
  from Cons.prems have a: "a < length h" by simp
  have c0: "new_ok n m M ?c0" for m M
    by (rule new_ok_low[OF Cons.prems(2,3)]) simp_all
  show ?case
  proof (cases "Mapping.lookup (children (h ! a)) k")
    case None
    with c0 show ?thesis
      by (intro exI[of _ None] exI[of _ "[?c0]"])
         (simp add: remove_dfs_absent[OF a None] del: remove_dfs.simps)
  next
    case (Some c)
    from low_ok_lookup[OF Cons.prems(2,3) Some] obtain b where c: "c = Some b" and b: "b < n" by blast
    have bin: "ptr_in {..<n} (Some b)" using b by (simp add: ptr_in_def)
    have n1: "n \<le> length ?h1" using Cons.prems(1) by simp
    have low1: "low_ok n ?h1" by (rule low_ok_append[OF Cons.prems(1,2)])
    have d: "descend h (Some a) (k # ks) = descend ?h1 (Some b) ks"
      using Some c low_descend_append[OF Cons.prems(1,2) bin, of "[?c0]" ks] by simp
    have sa: "search_from h (Some a) T (k # ps) = search_from ?h1 (Some b) T ps" for T ps
      using Some c low_search_append[OF Cons.prems(1,2) bin, of "[?c0]" T ps]
      by (simp add: search_from_Cons)
    from Cons.IH[OF n1 low1 b]
    obtain res1 zs1 where dfs1: "remove_dfs ks (Some b) ?h1 = Some (res1, ?h1 @ zs1)"
      and new1: "list_all (new_ok n (length ?h1) (length (?h1 @ zs1))) zs1"
      and r1: "case res1 of
              None \<Rightarrow> descend ?h1 (Some b) ks = None
            | Some r \<Rightarrow> length ?h1 \<le> r \<and> r < length (?h1 @ zs1) \<and> descend ?h1 (Some b) ks \<noteq> None \<and>
                (\<forall>T p. search_from (?h1 @ zs1) (Some r) T p =
                          (if p = ks then None else search_from ?h1 (Some b) T p))"
      by blast
    have new1': "list_all (new_ok n (length h) (length (h @ ?c0 # zs1))) zs1"
      using new1 by (auto simp: list_all_iff intro: new_ok_weaken)
    show ?thesis
    proof (cases res1)
      case None
      with dfs1 c have "remove_dfs ks c ?h1 = Some (None, h @ ?c0 # zs1)" by simp
      from remove_dfs_rec_None[OF a Some this] None r1 d new1' c0
      show ?thesis
        by (intro exI[of _ None] exI[of _ "?c0 # zs1"]) (simp del: remove_dfs.simps)
    next
      case (Some m)
      with r1 have m: "Suc (length h) \<le> m" "m < Suc (length h) + length zs1"
        and d1: "descend ?h1 (Some b) ks \<noteq> None"
        and s1: "\<And>T p. search_from (h @ ?c0 # zs1) (Some m) T p =
                          (if p = ks then None else search_from ?h1 (Some b) T p)"
        by auto
      let ?h2 = "h @ ?c0 # zs1"
      define ch where "ch = (if dead (?h2 ! m) then Mapping.delete k (children (h ! a))
                 else Mapping.update k (Some m) (children (h ! a)))"
      define nd where "nd = set_children ch ?c0"
      define h3 where "h3 = h @ nd # zs1"
      let ?S = "{..<n} \<union> {Suc (length h)..<Suc (length h) + length zs1}"
      from dfs1 c Some have "remove_dfs ks c ?h1 = Some (Some m, ?h2)" by simp
      from remove_dfs_rec_Some[OF a \<open>Mapping.lookup (children (h ! a)) k = Some c\<close> this]
      have dfs: "remove_dfs (k # ks) (Some a) h = Some (Some (length h), h3)"
        by (simp only: h3_def nd_def ch_def)
      have chk: "Mapping.lookup ch k = (if dead (?h2 ! m) then None else Some (Some m))"
        by (simp add: ch_def)
      have chk': "k' \<noteq> k \<Longrightarrow> Mapping.lookup ch k' = Mapping.lookup (children (h ! a)) k'" for k'
        by (simp add: ch_def)
      have cl: "closed_in ?S ?h2"
        using new1 by (intro closed_new[OF Cons.prems(1,2)]) simp
      have ag: "\<forall>x\<in>?S. h3 ! x = ?h2 ! x"
        using Cons.prems(1) by (auto simp: h3_def nth_append nth_Cons')
      have agl: "\<forall>x\<in>{..<n}. h3 ! x = h ! x"
        using Cons.prems(1) by (auto simp: h3_def nth_append)
      have len3: "length h3 = length ?h2" by (simp add: h3_def)
      have h3a: "h3 ! length h = nd" by (simp add: h3_def)
      have ndok: "new_ok n (length h) (length h3) nd"
        using new_ok_delete[OF c0[of "length h" "length h3"], of k]
              new_ok_update[OF c0[of "length h" "length h3"], of m k] m
        by (auto simp: nd_def ch_def len3 split: if_splits)
      have "search_from h3 (Some (length h)) T p =
              (if p = k # ks then None else search_from h (Some a) T p)" for T p
      proof (cases p)
        case Nil
        have "flag_ok (h ! a)" using Cons.prems(2,3) by (simp add: low_ok_def node_ok_def)
        then have "node_value T nd = node_value T (h ! a)" by (simp add: nd_def node_value_copy)
        with Nil h3a show ?thesis by (simp add: value_at_Some del: value_at.simps)
      next
        case p: (Cons k' ps)
        have st: "search_from h3 (Some (length h)) T p =
              (case Mapping.lookup ch k' of None \<Rightarrow> None | Some c \<Rightarrow> search_from h3 c T ps)"
          by (simp add: p search_from_Cons h3a nd_def)
        show ?thesis
        proof (cases "k' = k")
          case False
          show ?thesis
          proof (cases "Mapping.lookup (children (h ! a)) k'")
            case None
            with False p st show ?thesis by (simp add: search_from_Cons chk')
          next
            case c': (Some c')
            from low_ok_lookup[OF Cons.prems(2,3) c'] have "ptr_in {..<n} c'" by (auto simp: ptr_in_def)
            from search_from_agree[OF low_ok_closed[OF Cons.prems(2)] agl this]
            have "search_from h3 c' T ps = search_from h c' T ps" .
            with c' False p st show ?thesis by (simp add: search_from_Cons chk')
          qed
        next
          case True
          show ?thesis
          proof (cases "dead (?h2 ! m)")
            case dead: True
            from search_from_dead[OF dead] have "search_from ?h2 (Some m) T ps = None" .
            with s1[of T ps] have "ps \<noteq> ks \<Longrightarrow> search_from ?h1 (Some b) T ps = None" by simp
            with dead True p st sa[of T ps] show ?thesis by (simp add: chk)
          next
            case False
            have "ptr_in ?S (Some m)" using m by (simp add: ptr_in_def)
            from search_from_agree[OF cl ag this]
            have "search_from h3 (Some m) T ps = search_from ?h2 (Some m) T ps" .
            with False True p st sa[of T ps] s1[of T ps] show ?thesis by (simp add: chk)
          qed
        qed
      qed
      moreover have "list_all (new_ok n (length h) (length h3)) (nd # zs1)"
        using ndok new1' by (simp add: len3)
      moreover have "h3 = h @ (nd # zs1)" by (simp add: h3_def)
      moreover have "descend h (Some a) (k # ks) \<noteq> None" using d d1 by simp
      ultimately show ?thesis using dfs
        by (intro exI[of _ "Some (length h)"] exI[of _ "nd # zs1"]) (simp del: remove_dfs.simps)
    qed
  qed
qed

section \<open>insert and remove on versions\<close>

lemma heap_ok_new:
  assumes "heap_ok h" "list_all (new_ok (length h) (length h) (length (h @ zs))) zs"
  shows "heap_ok (h @ zs)"
proof (rule heap_ok_append[OF assms(1)])
  have "node_ok (length h + length zs) nd" if "new_ok (length h) (length h) (length (h @ zs)) nd" for nd :: "('a, 'b) TrieNode"
    using that unfolding new_ok_def by (intro node_okI) (auto, fastforce)
  with assms(2) show "list_all (node_ok (length h + length zs)) zs"
    by (auto simp: list_all_iff)
qed

lemma search_append:
  "version_ok h tr \<Longrightarrow> search (h @ zs) tr T ks = search h tr T ks"
  by (simp add: version_ok_def search_def search_from_append)

lemma insert_spec:
  assumes "version_ok h tr"
  shows "\<exists>zs a. Trie_insert h tr k T x = (Trie (Some a), h @ zs) \<and> version_ok (h @ zs) (Trie (Some a)) \<and>
           (\<forall>U p. search (h @ zs) (Trie (Some a)) U p =
                     (if p = k then (if U = T then Some x else None) else search h tr U p))"
proof -
  from assms have "heap_ok h" "ptr_ok (length h) (root tr)" by (simp_all add: version_ok_def)
  from insert_dfs_spec[OF this, of k T x] obtain zs a where
    "insert_dfs k T x (root tr) h = (Some a, h @ zs)" "a < length (h @ zs)" "heap_ok (h @ zs)"
    "\<forall>T' p. search_from (h @ zs) (Some a) T' p =
                     (if p = k then (if T' = T then Some x else None)
                      else search_from h (root tr) T' p)"
    by blast
  then show ?thesis
    by (intro exI[of _ zs] exI[of _ a]) (simp add: Trie_insert_def version_ok_def search_def ptr_ok_def)
qed

lemma remove_spec:
  assumes "version_ok h tr"
  shows "\<exists>tr' zs. Trie_remove h tr k = Some (tr', h @ zs) \<and> version_ok (h @ zs) tr' \<and>
           (descend h (root tr) k = None \<longrightarrow> tr' = tr) \<and>
           (\<forall>U p. search (h @ zs) tr' U p = (if p = k then None else search h tr U p))"
proof (cases "root tr")
  case None
  with assms show ?thesis
    by (intro exI[of _ "Trie None"] exI[of _ "[]"])
       (simp add: Trie_remove_def search_def version_ok_def ptr_ok_def, cases tr, simp)
next
  case (Some a)
  from assms Some have hok: "heap_ok h" and a: "a < length h" by (simp_all add: version_ok_def ptr_ok_def)
  from hok have low: "low_ok (length h) h" by (simp add: heap_ok_low_ok)
  from remove_dfs_spec[OF le_refl low a, of k] obtain res zs where
    dfs: "remove_dfs k (Some a) h = Some (res, h @ zs)"
    and new: "list_all (new_ok (length h) (length h) (length (h @ zs))) zs"
    and r: "case res of
              None \<Rightarrow> descend h (Some a) k = None
            | Some r \<Rightarrow> length h \<le> r \<and> r < length (h @ zs) \<and> descend h (Some a) k \<noteq> None \<and>
                (\<forall>T p. search_from (h @ zs) (Some r) T p =
                          (if p = k then None else search_from h (Some a) T p))"
    by blast
  from heap_ok_new[OF hok new] have hok': "heap_ok (h @ zs)" .
  have tr: "tr = Trie (Some a)" using Some by (cases tr) simp
  show ?thesis
  proof (cases res)
    case None
    with r have d: "descend h (Some a) k = None" by simp
    then have "search h tr U k = None" for U by (simp add: search_def search_from_def tr)
    with None dfs hok' a assms show ?thesis
      by (intro exI[of _ tr] exI[of _ zs])
         (auto simp: Trie_remove_def tr search_append version_ok_def ptr_ok_def)
  next
    case (Some r)
    with r have rr: "r < length (h @ zs)" and dn: "descend h (Some a) k \<noteq> None"
      and s: "\<And>T p. search_from (h @ zs) (Some r) T p =
                          (if p = k then None else search_from h (Some a) T p)"
      by auto
    show ?thesis
    proof (cases "dead ((h @ zs) ! r)")
      case True
      from search_from_dead[OF True] s
      have "search_from h (Some a) U p = None" if "p \<noteq> k" for U p using that by metis
      with True Some dfs hok' dn show ?thesis
        by (intro exI[of _ "Trie None"] exI[of _ zs])
           (auto simp: Trie_remove_def tr search_def version_ok_def ptr_ok_def)
    next
      case False
      with Some dfs hok' dn rr s show ?thesis
        by (intro exI[of _ "Trie (Some r)"] exI[of _ zs])
           (auto simp: Trie_remove_def tr search_def version_ok_def ptr_ok_def)
    qed
  qed
qed

section \<open>The paths of the new version after insert\<close>

lemma descend_last:
  "descend (h @ [nd]) (Some (length h)) ps =
     (case ps of [] \<Rightarrow> Some (Some (length h))
      | k # ks \<Rightarrow> (case Mapping.lookup (children nd) k of None \<Rightarrow> None
                   | Some c \<Rightarrow> descend (h @ [nd]) c ks))"
  by (cases ps) simp_all

lemma descend_base:
  "Mapping.lookup (children (base_node h cur)) k = Some c \<Longrightarrow> descend h cur (k # ps) = descend h c ps"
  by (cases cur) (simp_all add: base_node_def)

lemma descend_base_None:
  "Mapping.lookup (children (base_node h cur)) k = None \<Longrightarrow> descend h cur (k # ps) = None"
  by (cases cur) (simp_all add: base_node_def)

lemma descend_child_Cons:
  "heap_ok h \<Longrightarrow> ptr_ok (length h) cur \<Longrightarrow> ps \<noteq> [] \<Longrightarrow>
     descend h cur (k # ps) = descend h (child h cur k) ps"
  by (cases cur) (auto simp: child_def ptr_ok_def split: option.splits)

lemma not_dead_update: "\<not> dead (set_children (Mapping.update k p c) nd)"
  by (simp add: dead_def)

text \<open>
  The walks from the pointer \<open>dfs\<close> of \<^verbatim>\<open>insert\<close> returns: along a prefix of the key
  they end at a new node that is not dead, along any other path they are the walks of
  the old version.
\<close>

lemma insert_dfs_descend:
  assumes "heap_ok h" "ptr_ok (length h) cur" "insert_dfs ks T x cur h = (Some a, h')"
  shows "(\<forall>p. \<not> prefix p ks \<longrightarrow> descend h' (Some a) p = descend h cur p) \<and>
         (\<forall>p. prefix p ks \<longrightarrow>
            (\<exists>b. descend h' (Some a) p = Some (Some b) \<and> length h \<le> b \<and> b < length h' \<and>
                 \<not> dead (h' ! b)))"
  using assms
proof (induction ks arbitrary: cur a h')
  case Nil
  let ?c = "case cur of Some a \<Rightarrow> children (h ! a) | None \<Rightarrow> Mapping.empty"
  let ?nd = "TrieValueNode True ?c T x :: ('a, 'b) TrieNode"
  have c: "?c = children (base_node h cur)"
    by (cases cur) (simp_all add: base_node_def)
  from Nil.prems(3) have a: "a = length h" and h': "h' = h @ [?nd]"
    by (simp_all add: insert_dfs_Nil del: insert_dfs.simps)
  have "descend (h @ [?nd]) (Some (length h)) p = descend h cur p" if "p \<noteq> []" for p
  proof (cases p)
    case Nil
    with that show ?thesis by simp
  next
    case (Cons k ps)
    show ?thesis
    proof (cases "Mapping.lookup (children (base_node h cur)) k")
      case None
      with Cons show ?thesis using descend_last[of h ?nd p] by (simp add: c descend_base_None del: descend.simps)
    next
      case (Some d)
      from node_ok_lookup[OF base_node_ok[OF Nil.prems(1,2)] Some]
      have "ptr_ok (length h) d" by (auto simp: ptr_ok_def)
      with Some Cons Nil.prems(1) show ?thesis using descend_last[of h ?nd p]
        by (simp add: c descend_base descend_append del: descend.simps)
    qed
  qed
  moreover have "\<not> dead ?nd" by (simp add: dead_def)
  ultimately show ?case by (simp add: a h')
next
  case (Cons k ks)
  from insert_dfs_spec[OF Cons.prems(1) child_ptr_ok[OF Cons.prems(1,2)], of ks T x k]
  obtain zs n where dfs: "insert_dfs ks T x (child h cur k) h = (Some n, h @ zs)"
    and n: "n < length (h @ zs)" and hok1: "heap_ok (h @ zs)"
    by blast
  let ?h1 = "h @ zs"
  define nd where "nd = set_children (Mapping.update k (Some n) (children (base_node ?h1 cur))) (base_node ?h1 cur)"
  from Cons.prems(3) have a: "a = length ?h1" and h': "h' = ?h1 @ [nd]"
    by (simp_all add: insert_dfs_Cons[OF dfs] nd_def del: insert_dfs.simps)
  have b: "base_node ?h1 cur = base_node h cur"
    using Cons.prems(2) by (cases cur) (simp_all add: base_node_def ptr_ok_def nth_append)
  have bok: "node_ok (length h) (base_node h cur)" by (rule base_node_ok[OF Cons.prems(1,2)])
  have n': "ptr_ok (length ?h1) (Some n)" using n by (simp add: ptr_ok_def)
  have chk: "Mapping.lookup (children nd) k' = (if k' = k then Some (Some n) else Mapping.lookup (children (base_node h cur)) k')" for k'
    by (simp add: nd_def b lookup_update')
  have nd: "\<not> dead nd" by (simp add: nd_def not_dead_update)
  note IH = Cons.IH[OF Cons.prems(1) child_ptr_ok[OF Cons.prems(1,2)] dfs]
  have up: "descend (?h1 @ [nd]) (Some n) ps = descend ?h1 (Some n) ps" for ps
    by (rule descend_append[OF hok1 n'])
  have 1: "descend (?h1 @ [nd]) (Some (length ?h1)) p = descend h cur p" if "\<not> prefix p (k # ks)" for p
  proof (cases p)
    case Nil
    with that show ?thesis by simp
  next
    case p: (Cons k' ps)
    show ?thesis
    proof (cases "k' = k")
      case True
      with that p have np: "\<not> prefix ps ks" by simp
      then have "ps \<noteq> []" by auto
      from descend_child_Cons[OF Cons.prems(1,2) this, of k] IH np
      have "descend ?h1 (Some n) ps = descend h cur (k # ps)" by simp
      with True p up[of ps] show ?thesis using descend_last[of ?h1 nd p] by (simp add: chk del: descend.simps)
    next
      case False
      show ?thesis
      proof (cases "Mapping.lookup (children (base_node h cur)) k'")
        case None
        with False p show ?thesis using descend_last[of ?h1 nd p] by (simp add: chk descend_base_None del: descend.simps)
      next
        case (Some d)
        from node_ok_lookup[OF bok Some]
        have "ptr_ok (length h) d" by (auto simp: ptr_ok_def)
        then have "descend (h @ (zs @ [nd])) d ps = descend h d ps"
          by (rule descend_append[OF Cons.prems(1)])
        with Some False p show ?thesis using descend_last[of ?h1 nd p]
          by (simp add: chk descend_base del: descend.simps)
      qed
    qed
  qed
  have 2: "\<exists>b. descend (?h1 @ [nd]) (Some (length ?h1)) p = Some (Some b) \<and> length h \<le> b \<and>
               b < length (?h1 @ [nd]) \<and> \<not> dead ((?h1 @ [nd]) ! b)" if "prefix p (k # ks)" for p
  proof (cases p)
    case Nil
    with nd show ?thesis by (intro exI[of _ "length ?h1"]) simp
  next
    case p: (Cons k' ps)
    with that have k': "k' = k" and pp: "prefix ps ks" by simp_all
    from IH pp obtain b where "descend ?h1 (Some n) ps = Some (Some b)" "length h \<le> b"
      "b < length ?h1" "\<not> dead (?h1 ! b)" by blast
    with k' p up[of ps] nd show ?thesis using descend_last[of ?h1 nd p]
      by (intro exI[of _ b]) (simp add: chk nth_append)
  qed
  from 1 2 show ?case unfolding a h' by blast
qed

section \<open>The paths of the new version after remove\<close>

lemma descend_dead: "dead (h ! a) \<Longrightarrow> ps \<noteq> [] \<Longrightarrow> descend h (Some a) ps = None"
  by (cases ps) (auto simp: dead_def Mapping.is_empty_def keys_dom_lookup split: option.splits)

text \<open>
  The walks from a non-null pointer \<open>dfs\<close> of \<^verbatim>\<open>remove\<close> returns: along a path that
  is no prefix of the key they are the walks of the old version; along a non-empty
  prefix of the key they end, if at all, at a new node that is not dead.
\<close>

lemma remove_dfs_descend:
  assumes "n \<le> length h" "low_ok n h" "a < n" "remove_dfs ks (Some a) h = Some (Some r, h')"
  shows "(\<forall>p. \<not> prefix p ks \<longrightarrow> descend h' (Some r) p = descend h (Some a) p) \<and>
         (\<forall>p q. prefix p ks \<longrightarrow> p \<noteq> [] \<longrightarrow> descend h' (Some r) p = Some q \<longrightarrow>
            (\<exists>b. q = Some b \<and> length h \<le> b \<and> b < length h' \<and> \<not> dead (h' ! b)))"
  using assms
proof (induction ks arbitrary: a h r h')
  case Nil
  let ?nd = "TrieNode False (children (h ! a)) :: ('a, 'b) TrieNode"
  from Nil.prems(4) have r: "r = length h" and h': "h' = h @ [?nd]"
    by (simp_all add: remove_dfs_Nil del: remove_dfs.simps)
  have "descend (h @ [?nd]) (Some (length h)) p = descend h (Some a) p" if "p \<noteq> []" for p
  proof (cases p)
    case Nil
    with that show ?thesis by simp
  next
    case (Cons k ps)
    show ?thesis
    proof (cases "Mapping.lookup (children (h ! a)) k")
      case None
      with Cons show ?thesis using descend_last[of h ?nd p] by simp
    next
      case (Some c)
      from low_ok_lookup[OF Nil.prems(2,3) Some] have "ptr_in {..<n} c" by (auto simp: ptr_in_def)
      from low_descend_append[OF Nil.prems(1,2) this] Some Cons
      show ?thesis using descend_last[of h ?nd p] by simp
    qed
  qed
  then show ?case by (simp add: r h')
next
  case (Cons k ks)
  let ?c0 = "copy (h ! a)"
  let ?h1 = "h @ [?c0]"
  from Cons.prems have a: "a < length h" by simp
  show ?case
  proof (cases "Mapping.lookup (children (h ! a)) k")
    case None
    from remove_dfs_absent[OF a None] Cons.prems(4) show ?thesis by simp
  next
    case (Some c)
    from low_ok_lookup[OF Cons.prems(2,3) Some] obtain b where c: "c = Some b" and b: "b < n" by blast
    have bin: "ptr_in {..<n} (Some b)" using b by (simp add: ptr_in_def)
    have n1: "n \<le> length ?h1" using Cons.prems(1) by simp
    have low1: "low_ok n ?h1" by (rule low_ok_append[OF Cons.prems(1,2)])
    have d: "descend h (Some a) (k # ps) = descend ?h1 (Some b) ps" for ps
      using Some c low_descend_append[OF Cons.prems(1,2) bin, of "[?c0]" ps] by simp
    from remove_dfs_spec[OF n1 low1 b, of ks]
    obtain res1 zs1 where dfs1: "remove_dfs ks (Some b) ?h1 = Some (res1, ?h1 @ zs1)"
      and new1: "list_all (new_ok n (length ?h1) (length (?h1 @ zs1))) zs1"
      and r1: "case res1 of None \<Rightarrow> True
            | Some r \<Rightarrow> length ?h1 \<le> r \<and> r < length (?h1 @ zs1)"
      by (fastforce split: option.splits)
    show ?thesis
    proof (cases res1)
      case None
      with dfs1 c have "remove_dfs ks c ?h1 = Some (None, h @ ?c0 # zs1)" by simp
      from remove_dfs_rec_None[OF a Some this] Cons.prems(4) show ?thesis by simp
    next
      case res1: (Some m)
      with r1 have m: "Suc (length h) \<le> m" "m < Suc (length h) + length zs1" by auto
      let ?h2 = "h @ ?c0 # zs1"
      define ch where "ch = (if dead (?h2 ! m) then Mapping.delete k (children (h ! a))
                 else Mapping.update k (Some m) (children (h ! a)))"
      define nd where "nd = set_children ch ?c0"
      define h3 where "h3 = h @ nd # zs1"
      let ?S = "{..<n} \<union> {Suc (length h)..<Suc (length h) + length zs1}"
      from dfs1 c res1 have dfs1': "remove_dfs ks c ?h1 = Some (Some m, ?h2)" by simp
      from remove_dfs_rec_Some[OF a Some this] Cons.prems(4)
      have r: "r = length h" and h': "h' = h3"
        by (simp_all only: h3_def nd_def ch_def option.inject prod.inject)
      have chk: "Mapping.lookup ch k = (if dead (?h2 ! m) then None else Some (Some m))"
        by (simp add: ch_def)
      have chk': "k' \<noteq> k \<Longrightarrow> Mapping.lookup ch k' = Mapping.lookup (children (h ! a)) k'" for k'
        by (simp add: ch_def)
      have cl: "closed_in ?S ?h2"
        using new1 by (intro closed_new[OF Cons.prems(1,2)]) simp
      have ag: "\<forall>x\<in>?S. h3 ! x = ?h2 ! x"
        using Cons.prems(1) by (auto simp: h3_def nth_append nth_Cons')
      have agl: "\<forall>x\<in>{..<n}. h3 ! x = h ! x"
        using Cons.prems(1) by (auto simp: h3_def nth_append)
      have len3: "length h3 = length ?h2" by (simp add: h3_def)
      have h3a: "h3 ! length h = nd" by (simp add: h3_def)
      have min: "ptr_in ?S (Some m)" using m by (simp add: ptr_in_def)
      have h3m: "h3 ! x = ?h2 ! x" if "Suc (length h) \<le> x" for x
        using that by (simp add: h3_def nth_append nth_Cons')
      from dfs1 c res1 have "remove_dfs ks (Some b) ?h1 = Some (Some m, ?h2)" by simp
      note IH = Cons.IH[OF n1 low1 b this]
      have st: "descend h3 (Some (length h)) (k' # ps) =
              (case Mapping.lookup ch k' of None \<Rightarrow> None | Some c \<Rightarrow> descend h3 c ps)" for k' ps
        by (simp add: h3a nd_def)
      have up: "descend h3 (Some m) ps = descend ?h2 (Some m) ps" for ps
        by (rule descend_agree[OF cl ag min])
      have 1: "descend h3 (Some (length h)) p = descend h (Some a) p" if "\<not> prefix p (k # ks)" for p
      proof (cases p)
        case Nil
        with that show ?thesis by simp
      next
        case p: (Cons k' ps)
        show ?thesis
        proof (cases "k' = k")
          case False
          show ?thesis
          proof (cases "Mapping.lookup (children (h ! a)) k'")
            case None
            with False show ?thesis unfolding p st by (simp add: chk')
          next
            case c': (Some c')
            from low_ok_lookup[OF Cons.prems(2,3) c'] have "ptr_in {..<n} c'" by (auto simp: ptr_in_def)
            from descend_agree[OF low_ok_closed[OF Cons.prems(2)] agl this]
            have "descend h3 c' ps = descend h c' ps" .
            with c' False show ?thesis unfolding p st by (simp add: chk')
          qed
        next
          case True
          with that p have np: "\<not> prefix ps ks" by simp
          then have ne: "ps \<noteq> []" by auto
          from True p have p: "p = k # ps" by simp
          from IH np have e: "descend ?h2 (Some m) ps = descend ?h1 (Some b) ps" by simp
          show ?thesis
          proof (cases "dead (?h2 ! m)")
            case dead: True
            from descend_dead[OF dead ne] e have "descend ?h1 (Some b) ps = None" by simp
            with dead show ?thesis unfolding p st d by (simp add: chk)
          next
            case False
            with e up[of ps] show ?thesis unfolding p st d by (simp add: chk)
          qed
        qed
      qed
      have 2: "\<exists>b. q = Some b \<and> length h \<le> b \<and> b < length h3 \<and> \<not> dead (h3 ! b)"
        if "prefix p (k # ks)" "p \<noteq> []" "descend h3 (Some (length h)) p = Some q" for p q
      proof -
        from that(1,2) obtain ps where p: "p = k # ps" and pp: "prefix ps ks"
          by (cases p) auto
        from that(3) have nd: "\<not> dead (?h2 ! m)" and q: "descend ?h2 (Some m) ps = Some q"
          unfolding p st by (auto simp: chk up split: if_splits)
        show ?thesis
        proof (cases "ps = []")
          case True
          with q nd m h3m[of m] show ?thesis by (intro exI[of _ m]) (auto simp: len3)
        next
          case False
          from IH[THEN conjunct2, rule_format, OF pp False q]
          obtain b' where "q = Some b'" "length ?h1 \<le> b'" "b' < length ?h2"
            "\<not> dead (?h2 ! b')" by blast
          with h3m[of b'] show ?thesis by (intro exI[of _ b']) (auto simp: len3)
        qed
      qed
      from 1 2 show ?thesis unfolding r h' by blast
    qed
  qed
qed

section \<open>The invariant along a sequence of operations\<close>

text \<open>The four ways \<^verbatim>\<open>remove\<close> returns on a version.\<close>

lemma remove_cases [consumes 1, case_names null absent emptied kept]:
  assumes "version_ok h tr"
  obtains "root tr = None" "Trie_remove h tr k = Some (Trie None, h)"
  | a zs where "root tr = Some a" "remove_dfs k (Some a) h = Some (None, h @ zs)"
      "Trie_remove h tr k = Some (tr, h @ zs)"
  | a r zs where "root tr = Some a" "remove_dfs k (Some a) h = Some (Some r, h @ zs)"
      "dead ((h @ zs) ! r)" "Trie_remove h tr k = Some (Trie None, h @ zs)"
  | a r zs where "root tr = Some a" "remove_dfs k (Some a) h = Some (Some r, h @ zs)"
      "\<not> dead ((h @ zs) ! r)" "Trie_remove h tr k = Some (Trie (Some r), h @ zs)"
proof (cases "root tr")
  case None
  then have "Trie_remove h tr k = Some (Trie None, h)" by (simp add: Trie_remove_def)
  with None that(1) show ?thesis by blast
next
  case (Some a)
  from assms Some have hok: "heap_ok h" and a: "a < length h" by (simp_all add: version_ok_def ptr_ok_def)
  from hok have low: "low_ok (length h) h" by (simp add: heap_ok_low_ok)
  from remove_dfs_spec[OF le_refl low a, of k] obtain res zs where
    dfs: "remove_dfs k (Some a) h = Some (res, h @ zs)" by blast
  have tr: "Trie (Some a) = tr" using Some by (cases tr) simp
  show ?thesis
  proof (cases res)
    case None
    with dfs Some have "Trie_remove h tr k = Some (tr, h @ zs)" by (simp add: Trie_remove_def tr)
    with None dfs Some that(2) show ?thesis by blast
  next
    case r: (Some r)
    show ?thesis
    proof (cases "dead ((h @ zs) ! r)")
      case True
      with dfs Some r have "Trie_remove h tr k = Some (Trie None, h @ zs)" by (simp add: Trie_remove_def)
      with True r dfs Some that(3) show ?thesis by blast
    next
      case False
      with dfs Some r have "Trie_remove h tr k = Some (Trie (Some r), h @ zs)" by (simp add: Trie_remove_def)
      with False r dfs Some that(4) show ?thesis by blast
    qed
  qed
qed

lemma no_dead_None [simp]: "no_dead h None"
  by (simp add: no_dead_def)

lemma depth_le_None [simp]: "depth_le h None n"
  by (simp add: depth_le_def)

lemma no_dead_append:
  assumes "heap_ok h" "ptr_ok (length h) p" "no_dead h p"
  shows "no_dead (h @ zs) p"
  unfolding no_dead_def
proof (intro allI impI)
  fix path a assume "descend (h @ zs) p path = Some (Some a)"
  then have d: "descend h p path = Some (Some a)" by (simp add: descend_append[OF assms(1,2)])
  from descend_ptr_ok[OF assms(1,2) d] have "a < length h" by (simp add: ptr_ok_def)
  with d assms(3) show "\<not> dead ((h @ zs) ! a)" by (simp add: no_dead_def nth_append)
qed

lemma depth_le_append:
  "heap_ok h \<Longrightarrow> ptr_ok (length h) p \<Longrightarrow> depth_le h p n \<Longrightarrow> depth_le (h @ zs) p n"
  by (simp add: depth_le_def descend_append)

lemma prefix_length_less: "length ks < length p \<Longrightarrow> \<not> prefix p ks"
  by (auto dest: prefix_length_le)

lemma insert_inv:
  assumes "trie_inv h tr" "Trie_insert h tr k T x = (tr', h')"
  shows "trie_inv h' tr'"
proof -
  from assms(1) have hok: "heap_ok h" and rok: "ptr_ok (length h) (root tr)"
    and nd: "no_dead h (root tr)" and v: "version_ok h tr"
    by (simp_all add: trie_inv_def version_ok_def)
  from assms(1) obtain n where n: "depth_le h (root tr) n" by (auto simp: trie_inv_def)
  from insert_spec[OF v, of k T x] assms(2) obtain zs a where
    tr': "tr' = Trie (Some a)" and h': "h' = h @ zs" and v': "version_ok h' tr'" by auto
  from assms(2) have dfs: "insert_dfs k T x (root tr) h = (Some a, h')"
    by (simp add: Trie_insert_def tr' split: prod.splits)
  note D = insert_dfs_descend[OF hok rok dfs]
  have "no_dead h' (Some a)"
    unfolding no_dead_def
  proof (intro allI impI)
    fix path b assume p: "descend h' (Some a) path = Some (Some b)"
    show "\<not> dead (h' ! b)"
    proof (cases "prefix path k")
      case True
      with D p show ?thesis by auto
    next
      case False
      with D p have d: "descend h (root tr) path = Some (Some b)" by simp
      from descend_ptr_ok[OF hok rok d] have "b < length h" by (simp add: ptr_ok_def)
      with d nd show ?thesis by (simp add: no_dead_def h' nth_append)
    qed
  qed
  moreover have "depth_le h' (Some a) (max n (length k))"
    unfolding depth_le_def
  proof (intro allI impI)
    fix path :: string assume l: "max n (length k) < length path"
    then have "\<not> prefix path k" by (intro prefix_length_less) simp
    with D have "descend h' (Some a) path = descend h (root tr) path" by simp
    with n l show "descend h' (Some a) path = None" by (simp add: depth_le_def)
  qed
  ultimately show ?thesis using v' by (auto simp: trie_inv_def tr')
qed

lemma remove_inv:
  assumes "trie_inv h tr" "Trie_remove h tr k = Some (tr', h')"
  shows "trie_inv h' tr'"
proof -
  from assms(1) have hok: "heap_ok h" and rok: "ptr_ok (length h) (root tr)"
    and nd: "no_dead h (root tr)" and v: "version_ok h tr"
    by (simp_all add: trie_inv_def version_ok_def)
  from assms(1) obtain n where n: "depth_le h (root tr) n" by (auto simp: trie_inv_def)
  from remove_spec[OF v, of k] assms(2) obtain zs where
    h': "h' = h @ zs" and v': "version_ok h' tr'" by auto
  from v show ?thesis
  proof (cases rule: remove_cases[where k = k])
    case null
    with assms v' show ?thesis by (auto simp: trie_inv_def)
  next
    case (absent a zs)
    with assms(2) have "tr' = tr" "h' = h @ zs" by simp_all
    with v' no_dead_append[OF hok rok nd, of zs] depth_le_append[OF hok rok n, of zs]
    show ?thesis by (auto simp: trie_inv_def)
  next
    case (emptied a r zs)
    with assms v' show ?thesis by (auto simp: trie_inv_def)
  next
    case (kept a r zs)
    with assms(2) have tr': "tr' = Trie (Some r)" and h': "h' = h @ zs" by simp_all
    from rok kept(1) have a: "a < length h" by (simp add: ptr_ok_def)
    from hok have low: "low_ok (length h) h" by (simp add: heap_ok_low_ok)
    note D = remove_dfs_descend[OF le_refl low a kept(2)]
    have "no_dead h' (Some r)"
      unfolding no_dead_def
    proof (intro allI impI)
      fix path b assume p: "descend h' (Some r) path = Some (Some b)"
      show "\<not> dead (h' ! b)"
      proof (cases "prefix path k")
        case True
        show ?thesis
        proof (cases "path = []")
          case True
          with p kept(3) show ?thesis by (simp add: h')
        next
          case False
          from D[THEN conjunct2, rule_format, OF True False p[unfolded h']]
          show ?thesis by (simp add: h')
        qed
      next
        case False
        with D p have d: "descend h (root tr) path = Some (Some b)" by (simp add: h' kept(1))
        from descend_ptr_ok[OF hok rok d] have "b < length h" by (simp add: ptr_ok_def)
        with d nd show ?thesis by (simp add: no_dead_def h' nth_append)
      qed
    qed
    moreover have "depth_le h' (Some r) (max n (length k))"
      unfolding depth_le_def
    proof (intro allI impI)
      fix path :: string assume l: "max n (length k) < length path"
      then have "\<not> prefix path k" by (intro prefix_length_less) simp
      with D have "descend h' (Some r) path = descend h (root tr) path" by (simp add: h' kept(1))
      with n l show "descend h' (Some r) path = None" by (simp add: depth_le_def)
    qed
    ultimately show ?thesis using v' by (auto simp: trie_inv_def tr')
  qed
qed

lemma trie_inv_empty: "trie_inv [] (Trie None)"
  by (simp add: trie_inv_def version_ok_def heap_ok_def ptr_ok_def)

lemma run_inv:
  "trie_inv h tr \<Longrightarrow> \<exists>tr' h'. run ops (tr, h) = Some (tr', h') \<and> trie_inv h' tr'"
proof (induction ops arbitrary: tr h)
  case Nil
  then show ?case by simp
next
  case (Cons c cs)
  show ?case
  proof (cases c)
    case (Insert k T x)
    obtain tr1 h1 where i: "Trie_insert h tr k T x = (tr1, h1)" by (cases "Trie_insert h tr k T x")
    from insert_inv[OF Cons.prems i] have "trie_inv h1 tr1" .
    from Cons.IH[OF this] i Insert show ?thesis by simp
  next
    case (Remove k)
    from Cons.prems have "version_ok h tr" by (simp add: trie_inv_def)
    from remove_spec[OF this, of k] obtain tr1 h1 where r: "Trie_remove h tr k = Some (tr1, h1)" by blast
    from remove_inv[OF Cons.prems r] have "trie_inv h1 tr1" .
    from Cons.IH[OF this] r Remove show ?thesis by simp
  qed
qed

lemma is_empty_lookup: "Mapping.is_empty m \<longleftrightarrow> (\<forall>k. Mapping.lookup m k = None)"
  by (auto simp: Mapping.is_empty_def keys_dom_lookup fun_eq_iff)

text \<open>
  A non-null root without dead nodes below it, in a trie of finite depth, holds a key.
\<close>

lemma nonempty:
  assumes "heap_ok h"
  shows "a < length h \<Longrightarrow> no_dead h (Some a) \<Longrightarrow> depth_le h (Some a) n \<Longrightarrow>
           \<exists>T ks. search_from h (Some a) T ks \<noteq> None"
proof (induction n arbitrary: a)
  case 0
  from 0(2) have nd: "\<not> dead (h ! a)" by (auto simp: no_dead_def dest: spec[where x="[]"])
  have "Mapping.lookup (children (h ! a)) k = None" for k
  proof (cases "Mapping.lookup (children (h ! a)) k")
    case (Some c)
    with 0(3) have False by (auto simp: depth_le_def dest!: spec[where x="[k]"])
    then show ?thesis ..
  qed simp
  then have "Mapping.is_empty (children (h ! a))"
    by (simp add: is_empty_lookup)
  with nd have e: "isEndOfWord (h ! a)" by (simp add: dead_def)
  from heap_ok_nth[OF assms 0(1)] have "flag_ok (h ! a)" by (simp add: node_ok_def)
  with e obtain c t v where "h ! a = TrieValueNode True c t v"
    by (cases "h ! a") (auto simp: flag_ok_def)
  then have "search_from h (Some a) t [] = Some v" by simp
  then show ?case by (intro exI[of _ t] exI[of _ "[]"]) simp
next
  case (Suc n)
  from Suc.prems(2) have nd: "\<not> dead (h ! a)" by (auto simp: no_dead_def dest: spec[where x="[]"])
  show ?case
  proof (cases "isEndOfWord (h ! a)")
    case True
    from heap_ok_nth[OF assms Suc.prems(1)] have "flag_ok (h ! a)" by (simp add: node_ok_def)
    with True obtain c t v where "h ! a = TrieValueNode True c t v"
      by (cases "h ! a") (auto simp: flag_ok_def)
    then have "search_from h (Some a) t [] = Some v" by simp
    then show ?thesis by (intro exI[of _ t] exI[of _ "[]"]) simp
  next
    case False
    with nd have "\<not> Mapping.is_empty (children (h ! a))" by (simp add: dead_def)
    then obtain k c where c: "Mapping.lookup (children (h ! a)) k = Some c"
      by (auto simp: is_empty_lookup)
    from node_ok_lookup[OF heap_ok_nth[OF assms Suc.prems(1)] c]
    obtain b where b: "c = Some b" "b < length h" by blast
    have st: "descend h (Some a) (k # path) = descend h (Some b) path" for path
      using c b by simp
    have "no_dead h (Some b)" using Suc.prems(2) unfolding no_dead_def st[symmetric] by blast
    moreover have "depth_le h (Some b) n"
      unfolding depth_le_def
    proof (intro allI impI)
      fix path :: string assume "n < length path"
      then have "Suc n < length (k # path)" by simp
      with Suc.prems(3) have "descend h (Some a) (k # path) = None"
        unfolding depth_le_def by blast
      then show "descend h (Some b) path = None" by (simp only: st)
    qed
    ultimately obtain T ks where "search_from h (Some b) T ks \<noteq> None"
      using Suc.IH[OF b(2)] by blast
    with c b show ?thesis
      by (intro exI[of _ T] exI[of _ "k # ks"]) (simp add: search_from_Cons)
  qed
qed

section \<open>Reachable versions\<close>

lemma run_trie_inv:
  "\<exists>tr h. run ops emptyVersion = Some (tr, h) \<and> trie_inv h tr"
  unfolding emptyVersion_def by (rule run_inv[OF trie_inv_empty])

lemma run_version_ok:
  "run ops emptyVersion = Some (tr, h) \<Longrightarrow> version_ok h tr"
  using run_trie_inv[of ops] by (auto simp: trie_inv_def)

lemma run_flag_ok:
  "run ops emptyVersion = Some (tr, h) \<Longrightarrow> a < length h \<Longrightarrow> flag_ok (h ! a)"
  using run_version_ok[of ops tr h] by (auto simp: version_ok_def node_ok_def dest: heap_ok_nth)

text \<open>
  Versions share the store. A call of \<^verbatim>\<open>insert\<close> or \<^verbatim>\<open>remove\<close> on one version keeps
  the invariant of every other version of the store.
\<close>

lemma trie_inv_append:
  assumes "trie_inv h tr" "heap_ok (h @ zs)"
  shows "trie_inv (h @ zs) tr"
proof -
  from assms(1) have hok: "heap_ok h" and rok: "ptr_ok (length h) (root tr)"
    and nd: "no_dead h (root tr)"
    by (simp_all add: trie_inv_def version_ok_def)
  from assms(1) obtain n where n: "depth_le h (root tr) n" by (auto simp: trie_inv_def)
  from rok have "ptr_ok (length (h @ zs)) (root tr)" by (auto simp: ptr_ok_def split: option.splits)
  with assms(2) no_dead_append[OF hok rok nd, of zs] depth_le_append[OF hok rok n, of zs]
  show ?thesis by (auto simp: trie_inv_def version_ok_def)
qed

lemma other_version_keeps_inv:
  assumes "trie_inv h tr" "version_ok h tr2"
  shows "Trie_insert h tr2 k T x = (tr', h') \<Longrightarrow> trie_inv h' tr"
    and "Trie_remove h tr2 k = Some (tr', h') \<Longrightarrow> trie_inv h' tr"
proof -
  assume "Trie_insert h tr2 k T x = (tr', h')"
  with insert_spec[OF assms(2), of k T x] obtain zs where "h' = h @ zs" "heap_ok (h @ zs)"
    by (auto simp: version_ok_def)
  with trie_inv_append[OF assms(1)] show "trie_inv h' tr" by simp
next
  assume "Trie_remove h tr2 k = Some (tr', h')"
  with remove_spec[OF assms(2), of k] obtain zs where "h' = h @ zs" "heap_ok (h @ zs)"
    by (auto simp: version_ok_def)
  with trie_inv_append[OF assms(1)] show "trie_inv h' tr" by simp
qed

lemma remove_dfs_None: "remove_dfs k None h = None"
  by (cases k) simp_all

lemma heap_ok_lookup:
  "heap_ok h \<Longrightarrow> a < length h \<Longrightarrow> Mapping.lookup (children (h ! a)) k = Some p \<Longrightarrow>
     \<exists>b. p = Some b \<and> b < length h"
  by (auto dest: heap_ok_nth node_ok_lookup)

text \<open>
  What \<^verbatim>\<open>remove\<close> does with a key that holds no value: when an edge of the key is
  missing, the version returned is the handle it was called on; in every case the
  searches of the version returned are those of the old version.
\<close>

lemma remove_missing_edge_same_root:
  "version_ok h tr \<Longrightarrow> descend h (root tr) k = None \<Longrightarrow> \<exists>zs. Trie_remove h tr k = Some (tr, h @ zs)"
  using remove_spec[of h tr k] by auto

lemma remove_not_found_same_searches:
  assumes "version_ok h tr" "\<forall>T. search h tr T k = None"
  shows "\<exists>tr' h'. Trie_remove h tr k = Some (tr', h') \<and>
           (\<forall>T k2. search h' tr' T k2 = search h tr T k2)"
proof -
  from remove_spec[OF assms(1), of k] obtain tr' zs where
    "Trie_remove h tr k = Some (tr', h @ zs)"
    "\<forall>U p. search (h @ zs) tr' U p = (if p = k then None else search h tr U p)"
    by blast
  with assms(2) show ?thesis by (intro exI[of _ tr'] exI[of _ "h @ zs"]) simp
qed

section \<open>The run of the driver\<close>

text \<open>The searches \<^verbatim>\<open>main\<close> prints: after the five inserts, and at the end.\<close>

lemma main_prints:
  "(case run (take 5 main_ops) emptyVersion of
      None \<Rightarrow> False
    | Some (tr, h) \<Rightarrow>
        search h tr T_int ''abc'' = Some (V_int 123) \<and>
        search h tr T_int ''ab'' = Some (V_int 12) \<and>
        search h tr T_string ''ijk'' = Some (V_string ''xyz'') \<and>
        search h tr T_double ''xyz'' = Some (V_double 888 3)) \<and>
   (case run main_ops emptyVersion of
      None \<Rightarrow> False
    | Some (tr, h) \<Rightarrow>
        search h tr T_string ''ijk'' = None \<and>
        search h tr T_int ''abc'' = Some (V_int 123) \<and>
        search h tr T_int ''ab'' = None \<and>
        search h tr T_string [] = Some (V_string ''naughty''))"
  by code_simp

section \<open>The properties of the specification\<close>

text \<open>
  C1. For every version, every key \<open>k\<close>, every type \<open>T\<close> and every value \<open>x\<close>, searching
  \<open>k\<close> with type \<open>T\<close> in the version that \<^verbatim>\<open>insert<T>(k, x)\<close> returns gives \<open>x\<close>. What
  the key held before, of whatever type, is replaced: with any other type the key is
  not found in the new version.
\<close>

theorem search_insert_same:
  "version_ok h tr \<Longrightarrow> Trie_insert h tr k T x = (tr', h') \<Longrightarrow>
     search h' tr' T k = Some x \<and> (\<forall>U. U \<noteq> T \<longrightarrow> search h' tr' U k = None)"
  using insert_spec[of h tr k T x] by auto

theorem search_insert_same_witness:
  "version_ok (snd v_abc) (fst v_abc) \<and>
   search (snd v_abc) (fst v_abc) T_int ''abc'' = Some (V_int 123) \<and>
   search (snd (Trie_insert (snd v_abc) (fst v_abc) ''abc'' T_string (V_string ''xyz'')))
          (fst (Trie_insert (snd v_abc) (fst v_abc) ''abc'' T_string (V_string ''xyz'')))
          T_string ''abc'' = Some (V_string ''xyz'') \<and>
   search (snd (Trie_insert (snd v_abc) (fst v_abc) ''abc'' T_string (V_string ''xyz'')))
          (fst (Trie_insert (snd v_abc) (fst v_abc) ''abc'' T_string (V_string ''xyz'')))
          T_int ''abc'' = None"
proof -
  have ok: "version_ok (snd v_abc) (fst v_abc)" by code_simp
  have old: "search (snd v_abc) (fst v_abc) T_int ''abc'' = Some (V_int 123)" by code_simp
  from search_insert_same[OF ok, of "''abc''" T_string "V_string ''xyz''"
      "fst (Trie_insert (snd v_abc) (fst v_abc) ''abc'' T_string (V_string ''xyz''))"
      "snd (Trie_insert (snd v_abc) (fst v_abc) ''abc'' T_string (V_string ''xyz''))"]
  show ?thesis using ok old by simp
qed

text \<open>
  C2. For every version and key \<open>k\<close>, \<^verbatim>\<open>remove(k)\<close> returns a version in which \<open>k\<close> is not
  found with any type, and in which every other key, the keys that extend \<open>k\<close> among
  them, is found exactly as in the old version. At the end of the key the node is
  replaced by a plain node with the same children and the flag cleared (last conjunct).
\<close>

theorem search_remove:
  "version_ok h tr \<Longrightarrow>
     (\<exists>tr' h'. Trie_remove h tr k = Some (tr', h') \<and>
        (\<forall>T. search h' tr' T k = None) \<and>
        (\<forall>T k2. k2 \<noteq> k \<longrightarrow> search h' tr' T k2 = search h tr T k2)) \<and>
     (\<forall>a. remove_dfs [] (Some a) h =
        Some (Some (length h), h @ [TrieNode False (children (h ! a))]))"
  using remove_spec[of h tr k] by (auto simp: remove_dfs_Nil simp del: remove_dfs.simps)

theorem search_remove_witness:
  "version_ok (snd v_ab_abc) (fst v_ab_abc) \<and>
   search (snd v_ab_abc) (fst v_ab_abc) T_int ''ab'' = Some (V_int 12) \<and>
   search (snd v_ab_abc) (fst v_ab_abc) T_int ''abc'' = Some (V_int 123) \<and>
   (\<exists>tr' h'. Trie_remove (snd v_ab_abc) (fst v_ab_abc) ''ab'' = Some (tr', h') \<and>
      search h' tr' T_int ''ab'' = None \<and>
      search h' tr' T_int ''abc'' = Some (V_int 123))"
proof -
  have ok: "version_ok (snd v_ab_abc) (fst v_ab_abc)" by code_simp
  have old: "search (snd v_ab_abc) (fst v_ab_abc) T_int ''ab'' = Some (V_int 12)"
    "search (snd v_ab_abc) (fst v_ab_abc) T_int ''abc'' = Some (V_int 123)" by code_simp+
  from search_remove[OF ok, of "''ab''"] obtain tr' h' where
    "Trie_remove (snd v_ab_abc) (fst v_ab_abc) ''ab'' = Some (tr', h')"
    "search h' tr' T_int ''ab'' = None"
    "search h' tr' T_int ''abc'' = search (snd v_ab_abc) (fst v_ab_abc) T_int ''abc''"
    by fastforce
  with ok old show ?thesis by simp
qed

text \<open>
  C3. When a key holds a value of type \<open>U\<close>, a search of the key with another type \<open>T\<close>
  returns not-found, the result for an absent key, and so never a value of the wrong
  type. Values of independent types at two different keys of one version are each found
  with their own type, and with no other.
\<close>

theorem typed_search:
  "(search h tr U k = Some x \<longrightarrow> T \<noteq> U \<longrightarrow> search h tr T k = None) \<and>
   (version_ok h tr \<longrightarrow> k1 \<noteq> k2 \<longrightarrow>
      Trie_insert h tr k1 T1 x1 = (tr1, h1) \<longrightarrow> Trie_insert h1 tr1 k2 T2 x2 = (tr2, h2) \<longrightarrow>
      search h2 tr2 T1 k1 = Some x1 \<and> search h2 tr2 T2 k2 = Some x2 \<and>
      (\<forall>V. V \<noteq> T1 \<longrightarrow> search h2 tr2 V k1 = None) \<and>
      (\<forall>V. V \<noteq> T2 \<longrightarrow> search h2 tr2 V k2 = None))"
proof (intro conjI impI)
  assume "search h tr U k = Some x" "T \<noteq> U"
  then show "search h tr T k = None"
    by (cases "descend h (root tr) k"; cases "the (descend h (root tr) k)")
       (auto simp: search_def search_from_def split: TrieNode.splits if_splits)
next
  assume v: "version_ok h tr" and ne: "k1 \<noteq> k2"
    and i1: "Trie_insert h tr k1 T1 x1 = (tr1, h1)" and i2: "Trie_insert h1 tr1 k2 T2 x2 = (tr2, h2)"
  from insert_spec[OF v, of k1 T1 x1] i1 have v1: "version_ok h1 tr1"
    and s1: "\<And>V p. search h1 tr1 V p = (if p = k1 then (if V = T1 then Some x1 else None) else search h tr V p)"
    by auto
  from insert_spec[OF v1, of k2 T2 x2] i2
  have s2: "\<And>V p. search h2 tr2 V p = (if p = k2 then (if V = T2 then Some x2 else None) else search h1 tr1 V p)"
    by auto
  from ne show "search h2 tr2 T1 k1 = Some x1" by (simp add: s1 s2)
  show "search h2 tr2 T2 k2 = Some x2" by (simp add: s2)
  from ne show "\<forall>V. V \<noteq> T1 \<longrightarrow> search h2 tr2 V k1 = None" by (simp add: s1 s2)
  show "\<forall>V. V \<noteq> T2 \<longrightarrow> search h2 tr2 V k2 = None" by (simp add: s2)
qed


theorem typed_search_witness:
  "version_ok ([] :: (cpp_type, cpp_value) heap) (Trie None) \<and> ''abc'' \<noteq> ''ijk'' \<and>
   T_string \<noteq> T_int \<and>
   search (snd v_abc_ijk) (fst v_abc_ijk) T_int ''abc'' = Some (V_int 123) \<and>
   search (snd v_abc_ijk) (fst v_abc_ijk) T_string ''ijk'' = Some (V_string ''xyz'') \<and>
   search (snd v_abc_ijk) (fst v_abc_ijk) T_string ''abc'' = None"
proof -
  have ok: "version_ok ([] :: (cpp_type, cpp_value) heap) (Trie None)" by code_simp
  have i1: "Trie_insert [] (Trie None) ''abc'' T_int (V_int 123) = (fst v_abc, snd v_abc)"
    by (simp add: v_abc_def)
  have i2: "Trie_insert (snd v_abc) (fst v_abc) ''ijk'' T_string (V_string ''xyz'')
              = (fst v_abc_ijk, snd v_abc_ijk)"
    by (simp add: v_abc_ijk_def)
  have ne: "''abc'' \<noteq> ''ijk''" by simp
  from typed_search[where h = "[]" and tr = "Trie None" and ?k1.0 = "''abc''" and ?k2.0 = "''ijk''"
      and ?T1.0 = T_int and ?x1.0 = "V_int 123" and ?tr1.0 = "fst v_abc" and ?h1.0 = "snd v_abc"
      and ?T2.0 = T_string and ?x2.0 = "V_string ''xyz''" and ?tr2.0 = "fst v_abc_ijk"
      and ?h2.0 = "snd v_abc_ijk"] ok i1 i2 ne
  have 1: "search (snd v_abc_ijk) (fst v_abc_ijk) T_int ''abc'' = Some (V_int 123)"
    "search (snd v_abc_ijk) (fst v_abc_ijk) T_string ''ijk'' = Some (V_string ''xyz'')"
    by simp_all
  from typed_search[where h = "snd v_abc_ijk" and tr = "fst v_abc_ijk" and U = T_int
      and k = "''abc''" and x = "V_int 123" and T = T_string] 1
  have 2: "search (snd v_abc_ijk) (fst v_abc_ijk) T_string ''abc'' = None" by simp
  from ok ne 1 2
  show ?thesis by simp
qed

text \<open>
  C6. For every version, key \<open>k\<close>, value \<open>x\<close> and every other key \<open>k2\<close>, a search of
  \<open>k2\<close> in the version \<^verbatim>\<open>insert(k, x)\<close> returns gives what it gave in the old version:
  the new version differs only at \<open>k\<close>. The keys \<open>k2\<close> that extend \<open>k\<close> are among
  them, so the children of a node that was already at \<open>k\<close> are carried over.
\<close>

theorem search_insert_other:
  "version_ok h tr \<Longrightarrow> Trie_insert h tr k T x = (tr', h') \<Longrightarrow> k2 \<noteq> k \<Longrightarrow>
     search h' tr' U k2 = search h tr U k2"
  using insert_spec[of h tr k T x] by auto

theorem search_insert_other_witness:
  "version_ok (snd v_abc) (fst v_abc) \<and> ''abc'' \<noteq> ''ab'' \<and>
   search (snd v_ab_abc) (fst v_ab_abc) T_int ''abc'' = search (snd v_abc) (fst v_abc) T_int ''abc'' \<and>
   search (snd v_abc) (fst v_abc) T_int ''abc'' = Some (V_int 123)"
proof -
  have ok: "version_ok (snd v_abc) (fst v_abc)" by code_simp
  have old: "search (snd v_abc) (fst v_abc) T_int ''abc'' = Some (V_int 123)" by code_simp
  have i: "Trie_insert (snd v_abc) (fst v_abc) ''ab'' T_int (V_int 12) = (fst v_ab_abc, snd v_ab_abc)"
    by (simp add: v_ab_abc_def)
  have ne: "''abc'' \<noteq> ''ab''" by simp
  from search_insert_other[OF ok i ne, of T_int] ok old show ?thesis by simp
qed

text \<open>
  C7. After \<^verbatim>\<open>insert\<close> or \<^verbatim>\<open>remove\<close> on a version has returned a new version, every node
  the store held before the call is unchanged, and every search in the old version, for
  any key and any type, gives what it gave before the call.
\<close>

theorem old_version_unchanged:
  "version_ok h tr \<Longrightarrow>
     (\<forall>tr2 h2. Trie_insert h tr k T x = (tr2, h2) \<longrightarrow>
        (\<forall>a<length h. h2 ! a = h ! a) \<and> (\<forall>U k2. search h2 tr U k2 = search h tr U k2)) \<and>
     (\<forall>tr2 h2. Trie_remove h tr k = Some (tr2, h2) \<longrightarrow>
        (\<forall>a<length h. h2 ! a = h ! a) \<and> (\<forall>U k2. search h2 tr U k2 = search h tr U k2))"
  using insert_spec[of h tr k T x] remove_spec[of h tr k]
  by (auto simp: search_append nth_append)

theorem old_version_unchanged_witness:
  "version_ok (snd v_abc) (fst v_abc) \<and>
   search (snd v_ab_abc) (fst v_abc) T_int ''ab'' = search (snd v_abc) (fst v_abc) T_int ''ab'' \<and>
   search (snd v_abc) (fst v_abc) T_int ''ab'' = None \<and>
   search (snd v_ab_abc) (fst v_ab_abc) T_int ''ab'' = Some (V_int 12) \<and>
   (case Trie_remove (snd v_abc) (fst v_abc) ''abc'' of
      None \<Rightarrow> False
    | Some (tr2, h2) \<Rightarrow>
        search h2 tr2 T_int ''abc'' = None \<and>
        search h2 (fst v_abc) T_int ''abc'' = Some (V_int 123) \<and>
        h2 ! 0 = snd v_abc ! 0)"
proof -
  have ok: "version_ok (snd v_abc) (fst v_abc)" by code_simp
  have i: "Trie_insert (snd v_abc) (fst v_abc) ''ab'' T_int (V_int 12) = (fst v_ab_abc, snd v_ab_abc)"
    by (simp add: v_ab_abc_def)
  have old: "search (snd v_abc) (fst v_abc) T_int ''ab'' = None"
    "search (snd v_abc) (fst v_abc) T_int ''abc'' = Some (V_int 123)"
    "0 < length (snd v_abc)" by code_simp+
  have new: "search (snd v_ab_abc) (fst v_ab_abc) T_int ''ab'' = Some (V_int 12)" by code_simp
  have r: "case Trie_remove (snd v_abc) (fst v_abc) ''abc'' of
      None \<Rightarrow> False | Some (tr2, h2) \<Rightarrow> search h2 tr2 T_int ''abc'' = None" by code_simp
  note A = old_version_unchanged[OF ok, of "''ab''" T_int "V_int 12", THEN conjunct1,
      rule_format, OF i]
  from A have 1: "search (snd v_ab_abc) (fst v_abc) T_int ''ab'' = search (snd v_abc) (fst v_abc) T_int ''ab''"
    by blast
  from r obtain tr2 h2 where rr: "Trie_remove (snd v_abc) (fst v_abc) ''abc'' = Some (tr2, h2)"
    and gone: "search h2 tr2 T_int ''abc'' = None"
    by (auto split: option.splits)
  note B = old_version_unchanged[OF ok, of "''abc''" T_int "V_int 12", THEN conjunct2,
      rule_format, OF rr]
  from B old have "search h2 (fst v_abc) T_int ''abc'' = Some (V_int 123)" "h2 ! 0 = snd v_abc ! 0"
    by simp_all
  with rr gone have 2: "case Trie_remove (snd v_abc) (fst v_abc) ''abc'' of
      None \<Rightarrow> False
    | Some (tr2, h2) \<Rightarrow>
        search h2 tr2 T_int ''abc'' = None \<and>
        search h2 (fst v_abc) T_int ''abc'' = Some (V_int 123) \<and>
        h2 ! 0 = snd v_abc ! 0"
    by simp
  from ok 1 old new 2 show ?thesis by simp
qed

text \<open>
  C8. The empty key is a place of its own: in every version, the empty one among them,
  a search of the empty key after \<^verbatim>\<open>insert("", x)\<close> gives \<open>x\<close>; and in a version built
  from the empty one by calls none of which inserts at the empty key, the empty key is
  not found.
\<close>

theorem empty_key:
  "(version_ok (h :: ('t, 'a) heap) tr \<longrightarrow> Trie_insert h tr [] T x = (tr', h') \<longrightarrow> search h' tr' T [] = Some x) \<and>
   search (snd (Trie_insert [] (Trie None) [] T x)) (fst (Trie_insert [] (Trie None) [] T x)) T []
     = Some x \<and>
   ((\<forall>T' x'. Insert [] T' x' \<notin> set ops) \<longrightarrow>
      run ops emptyVersion = Some (tr2, h2 :: ('t, 'a) heap) \<longrightarrow> search h2 tr2 U [] = None)"
proof (intro conjI impI)
  assume "version_ok h tr" "Trie_insert h tr [] T x = (tr', h')"
  then show "search h' tr' T [] = Some x" using insert_spec[of h tr "[]" T x] by auto
next
  have "version_ok ([] :: ('t, 'a) heap) (Trie None)"
    by (simp add: version_ok_def heap_ok_def ptr_ok_def)
  from insert_spec[OF this, of "[]" T x]
  show "search (snd (Trie_insert [] (Trie None) [] T x)) (fst (Trie_insert [] (Trie None) [] T x)) T [] = Some x"
    by auto
next
  assume no: "\<forall>T' x'. Insert [] T' x' \<notin> set ops" and r: "run ops emptyVersion = Some (tr2, h2)"
  have "version_ok h0 t0 \<Longrightarrow> search h0 t0 U [] = None \<Longrightarrow> \<forall>T' x'. Insert [] T' x' \<notin> set cs \<Longrightarrow>
          run cs (t0, h0) = Some (t, h) \<Longrightarrow> search h t U [] = None"
    for cs t0 t and h0 h :: "('t, 'a) heap"
  proof (induction cs arbitrary: t0 h0)
    case Nil
    then show ?case by simp
  next
    case (Cons c cs)
    show ?case
    proof (cases c)
      case (Insert k V y)
      with Cons.prems(3) have k: "k \<noteq> []" by auto
      obtain t1 h1 where i: "Trie_insert h0 t0 k V y = (t1, h1)" by (cases "Trie_insert h0 t0 k V y")
      from insert_spec[OF Cons.prems(1), of k V y] i k Cons.prems(2)
      have "version_ok h1 t1" "search h1 t1 U [] = None" by auto
      from Cons.IH[OF this] Cons.prems(3,4) i Insert show ?thesis by simp
    next
      case (Remove k)
      from remove_spec[OF Cons.prems(1), of k] obtain t1 zs where
        r1: "Trie_remove h0 t0 k = Some (t1, h0 @ zs)" and v1: "version_ok (h0 @ zs) t1"
        and s: "\<forall>V p. search (h0 @ zs) t1 V p = (if p = k then None else search h0 t0 V p)"
        by blast
      from s[rule_format, of U "[]"] Cons.prems(2) have "search (h0 @ zs) t1 U [] = None"
        by (simp split: if_splits)
      note this = r1 v1 this
      from Cons.IH[OF this(2,3)] Cons.prems(3,4) this(1) Remove show ?thesis by simp
    qed
  qed
  moreover have "version_ok ([] :: ('t, 'a) heap) (Trie None)"
    "search ([] :: ('t, 'a) heap) (Trie None) U [] = None"
    by (simp_all add: version_ok_def heap_ok_def ptr_ok_def search_def)
  ultimately show "search h2 tr2 U [] = None" using no r unfolding emptyVersion_def by blast
qed

theorem empty_key_witness:
  "(case run main_ops emptyVersion of
      None \<Rightarrow> False
    | Some (tr, h) \<Rightarrow> search h tr T_string [] = Some (V_string ''naughty'')) \<and>
   (\<forall>T' x'. Insert [] T' x' \<notin> set (butlast main_ops)) \<and>
   (case run (butlast main_ops) emptyVersion of
      None \<Rightarrow> False
    | Some (tr, h) \<Rightarrow> version_ok h tr \<and> search h tr T_string [] = None \<and>
        search (snd (Trie_insert h tr [] T_string (V_string ''naughty'')))
               (fst (Trie_insert h tr [] T_string (V_string ''naughty''))) T_string []
          = Some (V_string ''naughty''))"
proof -
  have 1: "case run main_ops emptyVersion of
      None \<Rightarrow> False
    | Some (tr, h) \<Rightarrow> search h tr T_string [] = Some (V_string ''naughty'')" by code_simp
  have 2: "\<forall>T' x'. Insert [] T' x' \<notin> set (butlast main_ops)" by (simp add: main_ops_def)
  obtain tr h where r: "run (butlast main_ops) emptyVersion = Some (tr, h)"
    using run_trie_inv[of "butlast main_ops"] by blast
  have ok: "version_ok h tr" using r by (rule run_version_ok)
  from empty_key[of h tr T_string "V_string ''naughty''"
      "fst (Trie_insert h tr [] T_string (V_string ''naughty''))"
      "snd (Trie_insert h tr [] T_string (V_string ''naughty''))" "butlast main_ops" tr h T_string]
    ok 2 r
  have "search h tr T_string [] = None \<and>
        search (snd (Trie_insert h tr [] T_string (V_string ''naughty'')))
               (fst (Trie_insert h tr [] T_string (V_string ''naughty''))) T_string []
          = Some (V_string ''naughty'')" by simp
  with 1 2 ok r show ?thesis by simp
qed


text \<open>
  C5. In every version built from the empty one by a sequence of \<^verbatim>\<open>insert\<close> and
  \<^verbatim>\<open>remove\<close>, no node reached from the root is dead (no children and not the end of a
  key); the version holds no key exactly when its root is null; and when the new root
  that the descent of \<^verbatim>\<open>remove\<close> returns is dead, the version returned has a null
  root.
\<close>

theorem no_dead_nodes:
  "run ops emptyVersion = Some (tr, h) \<Longrightarrow>
     (\<forall>path a. descend h (root tr) path = Some (Some a) \<longrightarrow> \<not> dead (h ! a)) \<and>
     ((\<forall>T k. search h tr T k = None) \<longleftrightarrow> root tr = None) \<and>
     (\<forall>k r h'. remove_dfs k (root tr) h = Some (Some r, h') \<longrightarrow> dead (h' ! r) \<longrightarrow>
        Trie_remove h tr k = Some (Trie None, h'))"
proof (intro conjI allI impI)
  assume r: "run ops emptyVersion = Some (tr, h)"
  with run_trie_inv[of ops] have i: "trie_inv h tr" by simp
  then have nd: "no_dead h (root tr)" and hok: "heap_ok h" and rok: "ptr_ok (length h) (root tr)"
    by (simp_all add: trie_inv_def version_ok_def)
  from i obtain n where n: "depth_le h (root tr) n" by (auto simp: trie_inv_def)
  {
    fix path a assume "descend h (root tr) path = Some (Some a)"
    with nd show "\<not> dead (h ! a)" by (simp add: no_dead_def)
  }
  show "(\<forall>T k. search h tr T k = None) \<longleftrightarrow> root tr = None"
  proof
    assume e: "\<forall>T k. search h tr T k = None"
    show "root tr = None"
    proof (cases "root tr")
      case (Some a)
      with rok have "a < length h" by (simp add: ptr_ok_def)
      from nonempty[OF hok this] nd n Some e show ?thesis by (auto simp: search_def)
    qed simp
  next
    assume "root tr = None"
    then show "\<forall>T k. search h tr T k = None" by (simp add: search_def)
  qed
  {
    fix k r h' assume "remove_dfs k (root tr) h = Some (Some r, h')" "dead (h' ! r)"
    then show "Trie_remove h tr k = Some (Trie None, h')"
      by (cases "root tr") (simp_all add: Trie_remove_def remove_dfs_None del: remove_dfs.simps)
  }
qed

theorem no_dead_nodes_witness:
  "(case run main_ops emptyVersion of
      None \<Rightarrow> False
    | Some (tr, h) \<Rightarrow>
        root tr \<noteq> None \<and> search h tr T_int ''abc'' \<noteq> None \<and>
        (case descend h (root tr) ''abc'' of
           Some (Some a) \<Rightarrow> \<not> dead (h ! a)
         | _ \<Rightarrow> False)) \<and>
   (case remove_dfs ''abc'' (root (fst v_abc)) (snd v_abc) of
      Some (Some r, h') \<Rightarrow>
        dead (h' ! r) \<and> Trie_remove (snd v_abc) (fst v_abc) ''abc'' = Some (Trie None, h')
    | _ \<Rightarrow> False)"
proof -
  obtain tr h where r: "run main_ops emptyVersion = Some (tr, h)"
    using run_trie_inv[of main_ops] by blast
  have "case run main_ops emptyVersion of
      None \<Rightarrow> False
    | Some (tr, h) \<Rightarrow> search h tr T_int ''abc'' \<noteq> None \<and>
        (case descend h (root tr) ''abc'' of Some (Some a) \<Rightarrow> True | _ \<Rightarrow> False)"
    by code_simp
  with r obtain a where s: "search h tr T_int ''abc'' \<noteq> None"
    and d: "descend h (root tr) ''abc'' = Some (Some a)"
    by (auto split: option.splits)
  note N = no_dead_nodes[OF r]
  from N[THEN conjunct1, rule_format, OF d] have 1: "\<not> dead (h ! a)" .
  from N[THEN conjunct2, THEN conjunct1] s have 2: "root tr \<noteq> None" by auto
  have r1: "run [Insert ''abc'' T_int (V_int 123)] emptyVersion = Some (fst v_abc, snd v_abc)"
    by (simp add: v_abc_def emptyVersion_def)
  have "case remove_dfs ''abc'' (root (fst v_abc)) (snd v_abc) of
      Some (Some r, h') \<Rightarrow> dead (h' ! r) | _ \<Rightarrow> False"
    by code_simp
  then obtain r' h' where dfs: "remove_dfs ''abc'' (root (fst v_abc)) (snd v_abc) = Some (Some r', h')"
    and dd: "dead (h' ! r')"
    by (auto split: option.splits prod.splits)
  from no_dead_nodes[OF r1, THEN conjunct2, THEN conjunct2, rule_format, OF dfs dd]
  have "Trie_remove (snd v_abc) (fst v_abc) ''abc'' = Some (Trie None, h')" .
  with r s d 1 2 dfs dd show ?thesis by simp
qed

text \<open>
  C10. In every version built from the empty one by \<^verbatim>\<open>insert\<close> and \<^verbatim>\<open>remove\<close>, every
  entry of the children mapping of every node, and so of every node reached from the
  root, is a non-null pointer into the store. Hence the clone that \<^verbatim>\<open>remove\<close> takes at
  each level before it looks for the next edge never dereferences null: \<open>dfs\<close> and
  \<^verbatim>\<open>remove\<close> return for every key. The run of any sequence of operations returns too,
  and \<^verbatim>\<open>search\<close> and \<^verbatim>\<open>insert\<close>, which test every pointer, only read nodes of the store.
\<close>

theorem reachable_versions_total:
  "\<exists>tr h. run ops emptyVersion = Some (tr, h) \<and> version_ok h tr \<and>
      (\<forall>a k p. a < length h \<longrightarrow> Mapping.lookup (children (h ! a)) k = Some p \<longrightarrow>
         (\<exists>b. p = Some b \<and> b < length h)) \<and>
      (\<forall>path a k p. descend h (root tr) path = Some (Some a) \<longrightarrow>
         Mapping.lookup (children (h ! a)) k = Some p \<longrightarrow> a < length h \<and> p \<noteq> None) \<and>
      (\<forall>key a. root tr = Some a \<longrightarrow> (\<exists>v. remove_dfs key (Some a) h = Some v)) \<and>
      (\<forall>key. \<exists>v. Trie_remove h tr key = Some v)"
proof -
  from run_trie_inv[of ops] obtain tr h where r: "run ops emptyVersion = Some (tr, h)"
    and i: "trie_inv h tr" by blast
  from i have v: "version_ok h tr" and hok: "heap_ok h" and rok: "ptr_ok (length h) (root tr)"
    by (simp_all add: trie_inv_def version_ok_def)
  have 1: "\<exists>b. p = Some b \<and> b < length h"
    if "a < length h" "Mapping.lookup (children (h ! a)) k = Some p" for a k p
    using heap_ok_lookup[OF hok that] .
  have 2: "a < length h \<and> p \<noteq> None"
    if "descend h (root tr) path = Some (Some a)" "Mapping.lookup (children (h ! a)) k = Some p"
    for path a k p
  proof -
    from descend_ptr_ok[OF hok rok that(1)] have "a < length h" by (simp add: ptr_ok_def)
    with 1[OF this that(2)] show ?thesis by auto
  qed
  have 3: "\<exists>v. remove_dfs key (Some a) h = Some v" if "root tr = Some a" for key a
  proof -
    from rok that have "a < length h" by (simp add: ptr_ok_def)
    moreover from hok have "low_ok (length h) h" by (simp add: heap_ok_low_ok)
    ultimately show ?thesis using remove_dfs_spec[OF le_refl, of h a key] by blast
  qed
  have 4: "\<exists>v. Trie_remove h tr key = Some v" for key
    using remove_spec[OF v, of key] by blast
  from r v 1 2 3 4 show ?thesis by blast
qed

theorem reachable_versions_total_witness:
  "case run main_ops emptyVersion of
     None \<Rightarrow> False
   | Some (tr, h) \<Rightarrow>
       version_ok h tr \<and> 1 < length h \<and>
       Mapping.lookup (children (h ! 1)) (CHR ''c'') = Some (Some 0) \<and>
       (case root tr of None \<Rightarrow> False | Some a \<Rightarrow> remove_dfs ''xyz'' (Some a) h \<noteq> None) \<and>
       Trie_remove h tr ''xyz'' \<noteq> None"
proof -
  from reachable_versions_total[of main_ops] obtain tr h where
    r: "run main_ops emptyVersion = Some (tr, h)" and v: "version_ok h tr"
    and 3: "\<forall>key a. root tr = Some a \<longrightarrow> (\<exists>v. remove_dfs key (Some a) h = Some v)"
    and 4: "\<forall>key. \<exists>v. Trie_remove h tr key = Some v"
    by blast
  have "case run main_ops emptyVersion of
     None \<Rightarrow> False
   | Some (tr, h) \<Rightarrow> 1 < length h \<and>
       Mapping.lookup (children (h ! 1)) (CHR ''c'') = Some (Some 0) \<and> root tr \<noteq> None"
    by code_simp
  with r have c: "1 < length h" "Mapping.lookup (children (h ! 1)) (CHR ''c'') = Some (Some 0)"
    "root tr \<noteq> None" by simp_all
  from c(3) obtain a where a: "root tr = Some a" by blast
  from 3 a obtain v' where "remove_dfs ''xyz'' (Some a) h = Some v'" by blast
  moreover from 4 obtain v'' where "Trie_remove h tr ''xyz'' = Some v''" by blast
  ultimately show ?thesis using r v c a by simp
qed

text \<open>
  C9. The shallow clone of a node, plain or with a value, has the same children mapping
  as the node, is a value node exactly when the node is, then with the same type and
  the same value, and has the same end-of-key flag. \<^verbatim>\<open>copy\<close> does not read the flag:
  it builds the clone with the constructor of the node's class, which sets it. The flag
  of the clone is therefore the flag of the node for the nodes of the class invariant
  (plain nodes with the flag false, value nodes with the flag true): those the
  constructors build, and all nodes of a store built by \<^verbatim>\<open>insert\<close> and \<^verbatim>\<open>remove\<close>
  (\<open>run_flag_ok\<close>).
\<close>

theorem copy_same_fields:
  "children (copy n) = children n \<and>
   is_TrieValueNode (copy n) = is_TrieValueNode n \<and>
   (is_TrieValueNode n \<longrightarrow> vtype (copy n) = vtype n \<and> val (copy n) = val n) \<and>
   (flag_ok n \<longrightarrow> isEndOfWord (copy n) = isEndOfWord n)"
  by (cases n) (simp_all add: flag_ok_def)

theorem copy_same_fields_witness:
  "snd v_ab_abc ! 4 =
     TrieValueNode True (Mapping.update (CHR ''c'') (Some 0) Mapping.empty) T_int (V_int 12) \<and>
   flag_ok (snd v_ab_abc ! 4) \<and>
   children (copy (snd v_ab_abc ! 4)) = Mapping.update (CHR ''c'') (Some 0) Mapping.empty \<and>
   isEndOfWord (copy (snd v_ab_abc ! 4)) \<and> is_TrieValueNode (copy (snd v_ab_abc ! 4)) \<and>
   vtype (copy (snd v_ab_abc ! 4)) = T_int \<and> val (copy (snd v_ab_abc ! 4)) = V_int 12"
proof -
  have n: "snd v_ab_abc ! 4 =
     TrieValueNode True (Mapping.update (CHR ''c'') (Some 0) Mapping.empty) T_int (V_int 12)"
    by code_simp
  have f: "flag_ok (snd v_ab_abc ! 4)" by (simp add: n flag_ok_def)
  from copy_same_fields[of "snd v_ab_abc ! 4"] f n show ?thesis by simp
qed

text \<open>
  C4, at the input \<^verbatim>\<open>Trie().insert<int>("abc", 123).remove("ab")\<close>. The key \<open>ab\<close> holds
  no value, of any type, yet every edge of it exists: \<open>dfs\<close> reaches the end of the key
  and clones the whole path, and the version returned has a new root (address 4, the
  old root being at address 3), with three nodes allocated. The searches are unchanged.
\<close>

theorem remove_prefix_key_new_root:
  "(\<forall>T. search (snd v_abc) (fst v_abc) T ''ab'' = None) \<and>
   root (fst v_abc) = Some 3 \<and>
   (case Trie_remove (snd v_abc) (fst v_abc) ''ab'' of
      None \<Rightarrow> False
    | Some (tr', h') \<Rightarrow>
        root tr' = Some 4 \<and> tr' \<noteq> fst v_abc \<and> length h' = length (snd v_abc) + 3 \<and>
        search h' tr' T_int ''abc'' = Some (V_int 123))"
proof -
  have "search (snd v_abc) (fst v_abc) T ''ab'' = None" for T
    by code_simp
  moreover have "root (fst v_abc) = Some 3 \<and>
   (case Trie_remove (snd v_abc) (fst v_abc) ''ab'' of
      None \<Rightarrow> False
    | Some (tr', h') \<Rightarrow>
        root tr' = Some 4 \<and> tr' \<noteq> fst v_abc \<and> length h' = length (snd v_abc) + 3 \<and>
        search h' tr' T_int ''abc'' = Some (V_int 123))"
    by code_simp
  ultimately show ?thesis by blast
qed

end
